theory Spec2Isabelle
  imports Main "HOL-Library.Word" "HOL-Library.Monad_Syntax"
begin

section \<open>RBTree.hpp: the data model\<close>

text \<open>
  The embedding follows \<^verbatim>\<open>src/RBTree.hpp\<close>. A \<^verbatim>\<open>std::unique_ptr<Node>\<close> owns its
  pointee exclusively, so an owning pointer is a value of the datatype \<open>node\<close>:
  \<open>Null\<close> is \<^verbatim>\<open>nullptr\<close>, and \<open>Node a key val parent left right color\<close> is a live
  node stored at address \<open>a\<close> with the fields of \<^verbatim>\<open>struct Node\<close> in the order of their
  declaration. A raw \<^verbatim>\<open>Node*\<close> (the \<^verbatim>\<open>parent\<close> field, an iterator's \<^verbatim>\<open>m_node\<close>) is an
  \<open>addr option\<close>: \<open>None\<close> is \<^verbatim>\<open>nullptr\<close>, \<open>Some a\<close> points to the node at address \<open>a\<close>.

  Every function that can fail an \<^verbatim>\<open>assert\<close> or dereference a null or dangling pointer
  returns an \<open>option\<close>: \<open>None\<close> is the abnormal end of the program (the asserts are
  active, as in the build that runs \<^verbatim>\<open>validate()\<close> and the tests of \<^verbatim>\<open>src/Tests.hpp\<close>).
  Keys are of a linearly ordered type: \<^verbatim>\<open><\<close>, \<^verbatim>\<open>></\<close>, \<^verbatim>\<open>==\<close>, \<^verbatim>\<open><=\<close> and \<^verbatim>\<open>>=\<close> on \<^verbatim>\<open>K\<close> are
  those of the order. \<^verbatim>\<open>std::size_t\<close> is a 64-bit word. \<^verbatim>\<open>std::move\<close> of a key or a
  value is read as a copy (the moved-from object is left as it was).
\<close>

type_synonym addr = nat

datatype color = Red | Black

datatype direction = DIR_LEFT | DIR_RIGHT

datatype result = Inserted | Updated | Failed

datatype ('k, 'v) node =
    Null
  | Node addr 'k 'v "addr option" "('k, 'v) node" "('k, 'v) node" color

record ('k, 'v) rbtree =
  m_root :: "('k, 'v) node"
  m_size :: "64 word"

text \<open>\<^verbatim>\<open>!dir\<close> on a \<^verbatim>\<open>Direction\<close> that is 0 or 1.\<close>

fun opp :: "direction \<Rightarrow> direction" where
  "opp DIR_LEFT = DIR_RIGHT"
| "opp DIR_RIGHT = DIR_LEFT"

text \<open>\<^verbatim>\<open>unique_ptr::get()\<close>: the raw pointer to the pointee.\<close>

fun get :: "('k, 'v) node \<Rightarrow> addr option" where
  "get Null = None"
| "get (Node a k v p l r c) = Some a"

text \<open>
  \<^verbatim>\<open>Node::child(dir)\<close>. The source calls it through non-null pointers only; the model
  applies it to nodes that a pattern or a test has shown to be a \<open>Node\<close>.
\<close>

fun child :: "('k, 'v) node \<Rightarrow> direction \<Rightarrow> ('k, 'v) node" where
  "child (Node a k v p l r c) DIR_LEFT = l"
| "child (Node a k v p l r c) DIR_RIGHT = r"
| "child Null dir = Null"

text \<open>The assignment \<^verbatim>\<open>n->child(dir) = x\<close>.\<close>

fun set_child :: "('k, 'v) node \<Rightarrow> direction \<Rightarrow> ('k, 'v) node \<Rightarrow> ('k, 'v) node" where
  "set_child (Node a k v p l r c) DIR_LEFT x = Node a k v p x r c"
| "set_child (Node a k v p l r c) DIR_RIGHT x = Node a k v p l x c"
| "set_child Null dir x = Null"

text \<open>The test \<^verbatim>\<open>p != nullptr && p->is_red()\<close>, which guards every colour read of a child.\<close>

fun is_red :: "('k, 'v) node \<Rightarrow> bool" where
  "is_red Null = False"
| "is_red (Node a k v p l r c) = (c = Red)"

text \<open>The assignments \<^verbatim>\<open>n->color = c\<close> and \<^verbatim>\<open>n->parent = q\<close> on a non-null \<^verbatim>\<open>n\<close>.\<close>

fun set_color :: "('k, 'v) node \<Rightarrow> color \<Rightarrow> ('k, 'v) node" where
  "set_color Null c' = Null"
| "set_color (Node a k v p l r c) c' = Node a k v p l r c'"

fun set_parent :: "('k, 'v) node \<Rightarrow> addr option \<Rightarrow> ('k, 'v) node" where
  "set_parent Null q = Null"
| "set_parent (Node a k v p l r c) q = Node a k v q l r c"

section \<open>Rotations and the two fixups\<close>

text \<open>
  \<^verbatim>\<open>single_rotation(root, dir)\<close>, lines 279-308: \<open>save = root->child(!dir)\<close> is promoted,
  the old root is coloured red and becomes \<open>save->child(dir)\<close>, \<open>save\<close> is coloured black
  and takes the old root's parent. \<open>save->color\<close> dereferences \<open>save\<close>: a null \<open>save\<close>
  (or a null root) is \<open>None\<close>.
\<close>

fun single_rotation :: "('k, 'v) node \<Rightarrow> direction \<Rightarrow> ('k, 'v) node option" where
  "single_rotation (Node a k v p l (Node sa sk sv sp sl sr sc) c) DIR_LEFT =
     Some (Node sa sk sv p (Node a k v (Some sa) l (set_parent sl (Some a)) Red) sr Black)"
| "single_rotation (Node a k v p (Node sa sk sv sp sl sr sc) r c) DIR_RIGHT =
     Some (Node sa sk sv p sl (Node a k v (Some sa) (set_parent sr (Some a)) r Red) Black)"
| "single_rotation n dir = None"

text \<open>\<^verbatim>\<open>double_rotation(root, dir)\<close>, lines 310-313.\<close>

fun double_rotation :: "('k, 'v) node \<Rightarrow> direction \<Rightarrow> ('k, 'v) node option" where
  "double_rotation Null dir = None"
| "double_rotation (Node a k v p l r c) dir =
     do {
       ch \<leftarrow> single_rotation (child (Node a k v p l r c) (opp dir)) (opp dir);
       single_rotation (set_child (Node a k v p l r c) (opp dir) ch) dir
     }"

text \<open>\<^verbatim>\<open>insert_rebalance(root, dir)\<close>, lines 315-337.\<close>

fun insert_rebalance :: "('k, 'v) node \<Rightarrow> direction \<Rightarrow> ('k, 'v) node option" where
  "insert_rebalance Null dir = None"
| "insert_rebalance (Node a k v p l r c) dir =
     (let root = Node a k v p l r c;
          ch = child root dir;
          opposite_child = child root (opp dir)
      in if is_red ch then
           if is_red opposite_child then
             Some (Node a k v p (set_color l Black) (set_color r Black) Red)
           else
             let grandchild = child ch dir;
                 opposite_grandchild = child ch (opp dir)
             in if is_red grandchild then single_rotation root (opp dir)
                else if is_red opposite_grandchild then double_rotation root (opp dir)
                else Some root
         else Some root)"

text \<open>
  The three assignments \<^verbatim>\<open>root->color = c; root->left->color = Black;
  root->right->color = Black\<close> of lines 372-374; a null child is dereferenced there.
\<close>

fun recolor3 :: "('k, 'v) node \<Rightarrow> color \<Rightarrow> ('k, 'v) node option" where
  "recolor3 (Node a k v p (Node la lk lv lp ll lr lc) (Node ra rk rv rp rl rr rc) c) c' =
     Some (Node a k v p (Node la lk lv lp ll lr Black) (Node ra rk rv rp rl rr Black) c')"
| "recolor3 n c' = None"

text \<open>
  \<^verbatim>\<open>remove_rebalance(root, dir)\<close>, lines 339-381; the result is the new subtree and the
  returned \<^verbatim>\<open>is_done\<close>. After the rotation of case 1 the source reads \<open>s\<close> again from
  \<open>root\<close>, which by then is the promoted node; the model does the same.
\<close>

fun remove_rebalance :: "('k, 'v) node \<Rightarrow> direction \<Rightarrow> (('k, 'v) node \<times> bool) option" where
  "remove_rebalance Null dir = None"
| "remove_rebalance (Node a k v p l r c) dir =
     do {
       root1 \<leftarrow> (if is_red (child (Node a k v p l r c) (opp dir))
                 then single_rotation (Node a k v p l r c) dir
                 else Some (Node a k v p l r c));
       case child root1 (opp dir) of
         Null \<Rightarrow> Some (root1, False)
       | Node sa sk sv sp sl sr sc \<Rightarrow>
           let left_red = is_red sl; right_red = is_red sr in
           if \<not> left_red \<and> \<not> right_red then
             Some (set_child (set_color root1 Black) (opp dir) (Node sa sk sv sp sl sr Red),
                   is_red root1)
           else
             do {
               root2 \<leftarrow> (if is_red (child (Node sa sk sv sp sl sr sc) (opp dir))
                         then single_rotation root1 dir
                         else double_rotation root1 dir);
               root3 \<leftarrow> recolor3 root2 (if is_red root1 then Red else Black);
               Some (root3, True)
             }
     }"

section \<open>Insertion, removal and lookup\<close>

text \<open>
  \<^verbatim>\<open>try_insert_key_val(parent, node, key, value, allow_update)\<close>, lines 494-548. The
  member \<^verbatim>\<open>m_size\<close> is passed in and returned. \<open>fresh\<close> is the address that
  \<^verbatim>\<open>std::make_unique<Node>\<close> returns if the call allocates: the allocator's choice is a
  parameter, so that the model covers every allocator.
\<close>

fun try_insert_key_val ::
  "addr \<Rightarrow> addr option \<Rightarrow> ('k::linorder, 'v) node \<Rightarrow> 'k \<Rightarrow> 'v \<Rightarrow> bool \<Rightarrow> 64 word
     \<Rightarrow> (('k, 'v) node \<times> 64 word \<times> result) option" where
  "try_insert_key_val fresh parent Null key val allow_update sz =
     Some (Node fresh key val parent Null Null Red, sz + 1, Inserted)"
| "try_insert_key_val fresh parent (Node a k v p l r c) key val allow_update sz =
     (if key < k then
        (case try_insert_key_val fresh (Some a) l key val allow_update sz of
           None \<Rightarrow> None
         | Some (l', sz', res) \<Rightarrow>
             if res = Inserted then
               (case insert_rebalance (Node a k v p l' r c) DIR_LEFT of
                  None \<Rightarrow> None
                | Some n \<Rightarrow> Some (n, sz', res))
             else Some (Node a k v p l' r c, sz', res))
      else if key > k then
        (case try_insert_key_val fresh (Some a) r key val allow_update sz of
           None \<Rightarrow> None
         | Some (r', sz', res) \<Rightarrow>
             if res = Inserted then
               (case insert_rebalance (Node a k v p l r' c) DIR_RIGHT of
                  None \<Rightarrow> None
                | Some n \<Rightarrow> Some (n, sz', res))
             else Some (Node a k v p l r' c, sz', res))
      else if parent \<noteq> p then None
      else if allow_update then Some (Node a k val p l r c, sz, Updated)
      else Some (Node a k v p l r c, sz, Failed))"

text \<open>
  The tail of \<^verbatim>\<open>insert\<close> and \<^verbatim>\<open>insert_or_update\<close>: on \<^verbatim>\<open>Inserted\<close> the root is painted
  black through \<^verbatim>\<open>m_root->color\<close>.
\<close>

fun finish_insert ::
  "('k, 'v) node \<times> 64 word \<times> result \<Rightarrow> (('k, 'v) rbtree \<times> result) option" where
  "finish_insert (root, sz, res) =
     (if res = Inserted then
        (case root of
           Null \<Rightarrow> None
         | Node a k v p l r c \<Rightarrow> Some (\<lparr>m_root = Node a k v p l r Black, m_size = sz\<rparr>, res))
      else Some (\<lparr>m_root = root, m_size = sz\<rparr>, res))"

text \<open>\<^verbatim>\<open>insert(key, value)\<close>, lines 31-38, 50-57, 69-76 (the three overloads agree).\<close>

definition insert_rb ::
  "('k::linorder, 'v) rbtree \<Rightarrow> addr \<Rightarrow> 'k \<Rightarrow> 'v \<Rightarrow> (('k, 'v) rbtree \<times> result) option" where
  "insert_rb t fresh key val =
     Option.bind (try_insert_key_val fresh None (m_root t) key val False (m_size t)) finish_insert"

text \<open>\<^verbatim>\<open>insert_or_update(key, value)\<close>, lines 40-47, 59-66, 78-85.\<close>

definition insert_or_update ::
  "('k::linorder, 'v) rbtree \<Rightarrow> addr \<Rightarrow> 'k \<Rightarrow> 'v \<Rightarrow> (('k, 'v) rbtree \<times> result) option" where
  "insert_or_update t fresh key val =
     Option.bind (try_insert_key_val fresh None (m_root t) key val True (m_size t)) finish_insert"

text \<open>
  \<^verbatim>\<open>find_min(node)\<close> and \<^verbatim>\<open>find_max(node)\<close>, lines 436-460, on the pointee of an owning
  pointer; the result is the node the returned pointer points to (\<open>Null\<close> for
  \<^verbatim>\<open>nullptr\<close>). Each step of the loop asserts the child's parent link.
\<close>

fun find_min :: "('k, 'v) node \<Rightarrow> ('k, 'v) node option" where
  "find_min Null = Some Null"
| "find_min (Node a k v p Null r c) = Some (Node a k v p Null r c)"
| "find_min (Node a k v p (Node la lk lv lp ll lr lc) r c) =
     (if lp = Some a then find_min (Node la lk lv lp ll lr lc) else None)"

fun find_max :: "('k, 'v) node \<Rightarrow> ('k, 'v) node option" where
  "find_max Null = Some Null"
| "find_max (Node a k v p l Null c) = Some (Node a k v p l Null c)"
| "find_max (Node a k v p l (Node ra rk rv rp rl rr rc) c) =
     (if rp = Some a then find_max (Node ra rk rv rp rl rr rc) else None)"

text \<open>
  The branch of \<^verbatim>\<open>try_remove_key\<close> for a matched node with at most one child, lines
  564-582: the result is the subtree that replaces the node and the new \<^verbatim>\<open>is_done\<close>.
  \<open>ch\<close> is \<^verbatim>\<open>root->child(root->left == nullptr)\<close>.
\<close>

fun unlink :: "addr \<Rightarrow> addr option \<Rightarrow> color \<Rightarrow> ('k, 'v) node \<Rightarrow> bool
                 \<Rightarrow> (('k, 'v) node \<times> bool) option" where
  "unlink a p c Null is_done = Some (Null, (if c = Red then True else is_done))"
| "unlink a p c (Node ca ck cv cp cl cr cc) is_done =
     (if cp \<noteq> Some a then None
      else if c = Red then Some (Node ca ck cv p cl cr cc, True)
      else if cc = Red then Some (Node ca ck cv p cl cr Black, True)
      else Some (Node ca ck cv p cl cr cc, is_done))"

text \<open>
  \<^verbatim>\<open>try_remove_key(root, is_done, key)\<close>, lines 550-604. \<^verbatim>\<open>is_done\<close> is an in-out
  parameter and \<^verbatim>\<open>m_size\<close> a member: both are passed in and returned. The result is
  (new subtree, \<^verbatim>\<open>is_done\<close>, \<^verbatim>\<open>m_size\<close>, returned optional). In the two-children branch
  \<open>key_ptr\<close> is redirected to the key of the maximum of the left subtree, whose key and
  value have been copied into the matched node.
\<close>

fun try_remove_key ::
  "('k::linorder, 'v) node \<Rightarrow> bool \<Rightarrow> 'k \<Rightarrow> 64 word
     \<Rightarrow> (('k, 'v) node \<times> bool \<times> 64 word \<times> 'v option) option" where
  "try_remove_key Null is_done key sz = Some (Null, True, sz, None)"
| "try_remove_key (Node a k v p l r c) is_done key sz =
     (if k = key \<and> (l = Null \<or> r = Null) then
        (case unlink a p c (if l = Null then r else l) is_done of
           None \<Rightarrow> None
         | Some (n, d) \<Rightarrow> Some (n, d, sz - 1, Some v))
      else
        (case (if k = key then
                 (case find_max l of
                    None \<Rightarrow> None
                  | Some Null \<Rightarrow> None
                  | Some (Node sa sk sv sp sl sr sc) \<Rightarrow> Some (sk, sv, sk, Some v))
               else Some (k, v, key, None)) of
           None \<Rightarrow> None
         | Some (k', v', key', removed_value) \<Rightarrow>
             (case (if k' < key' then try_remove_key r is_done key' sz
                    else try_remove_key l is_done key' sz) of
                None \<Rightarrow> None
              | Some (ch, d, sz', res) \<Rightarrow>
                  let dir = (if k' < key' then DIR_RIGHT else DIR_LEFT);
                      root' = set_child (Node a k' v' p l r c) dir ch;
                      res' = (if removed_value \<noteq> None then removed_value else res)
                  in if \<not> d then
                       (case remove_rebalance root' dir of
                          None \<Rightarrow> None
                        | Some (n, d') \<Rightarrow> Some (n, d', sz', res'))
                     else Some (root', d, sz', res'))))"

text \<open>\<^verbatim>\<open>remove(key)\<close>, lines 87-94.\<close>

definition remove_rb ::
  "('k::linorder, 'v) rbtree \<Rightarrow> 'k \<Rightarrow> (('k, 'v) rbtree \<times> 'v option) option" where
  "remove_rb t key =
     (case try_remove_key (m_root t) False key (m_size t) of
        None \<Rightarrow> None
      | Some (root, d, sz, res) \<Rightarrow>
          Some (\<lparr>m_root = (if res \<noteq> None \<and> root \<noteq> Null then set_color root Black else root),
                 m_size = sz\<rparr>, res))"

text \<open>\<^verbatim>\<open>try_find_key(node, key)\<close>, lines 606-626, and \<^verbatim>\<open>find(key)\<close>, lines 98-100.\<close>

fun try_find_key :: "('k::linorder, 'v) node \<Rightarrow> 'k \<Rightarrow> 'v option" where
  "try_find_key Null key = None"
| "try_find_key (Node a k v p l r c) key =
     (if key < k then try_find_key l key
      else if key > k then try_find_key r key
      else Some v)"

definition find_rb :: "('k::linorder, 'v) rbtree \<Rightarrow> 'k \<Rightarrow> 'v option" where
  "find_rb t key = try_find_key (m_root t) key"

text \<open>The empty tree of the default constructor, and \<^verbatim>\<open>is_empty()\<close>, \<^verbatim>\<open>size()\<close>.\<close>

definition empty_rb :: "('k, 'v) rbtree" where
  "empty_rb = \<lparr>m_root = Null, m_size = 0\<rparr>"

definition is_empty_rb :: "('k, 'v) rbtree \<Rightarrow> bool" where
  "is_empty_rb t = (m_root t = Null)"

definition size_rb :: "('k, 'v) rbtree \<Rightarrow> 64 word" where
  "size_rb t = m_size t"

text \<open>\<^verbatim>\<open>clear()\<close>, lines 102-105.\<close>

definition clear_rb :: "('k, 'v) rbtree \<Rightarrow> ('k, 'v) rbtree" where
  "clear_rb t = \<lparr>m_root = Null, m_size = 0\<rparr>"

section \<open>Validation\<close>

text \<open>
  \<^verbatim>\<open>validate_parents(node, expected_parent)\<close>, lines 427-434: \<open>None\<close> is the failed
  assertion.
\<close>

fun validate_parents :: "('k, 'v) node \<Rightarrow> addr option \<Rightarrow> unit option" where
  "validate_parents Null expected_parent = Some ()"
| "validate_parents (Node a k v p l r c) expected_parent =
     (if p \<noteq> expected_parent then None
      else case validate_parents l (Some a) of
             None \<Rightarrow> None
           | Some u \<Rightarrow> validate_parents r (Some a))"

text \<open>The tests \<^verbatim>\<open>child != nullptr && child->key >= key\<close> and \<^verbatim>\<open>... <= key\<close> of lines 406-407.\<close>

fun key_ge :: "('k::linorder, 'v) node \<Rightarrow> 'k \<Rightarrow> bool" where
  "key_ge Null x = False"
| "key_ge (Node a k v p l r c) x = (k \<ge> x)"

fun key_le :: "('k::linorder, 'v) node \<Rightarrow> 'k \<Rightarrow> bool" where
  "key_le Null x = False"
| "key_le (Node a k v p l r c) x = (k \<le> x)"

text \<open>
  \<^verbatim>\<open>validate_red_black_tree(root)\<close>, lines 384-425. Each \<^verbatim>\<open>assert(false && ...)\<close> ends the
  program (\<open>None\<close>), so the \<^verbatim>\<open>return {false, 0}\<close> after it is never reached; the last
  \<^verbatim>\<open>return {false, 0}\<close> is reached when a height is 0.
\<close>

fun validate_red_black_tree :: "('k::linorder, 'v) node \<Rightarrow> (bool \<times> 64 word) option" where
  "validate_red_black_tree Null = Some (True, 1)"
| "validate_red_black_tree (Node a k v p l r c) =
     (if c = Red \<and> (is_red l \<or> is_red r) then None
      else
        case validate_red_black_tree l of
          None \<Rightarrow> None
        | Some (left_valid, left_height) \<Rightarrow>
            (case validate_red_black_tree r of
               None \<Rightarrow> None
             | Some (right_valid, right_height) \<Rightarrow>
                 if key_ge l k \<or> key_le r k then None
                 else if left_height \<noteq> 0 \<and> right_height \<noteq> 0 \<and> left_height \<noteq> right_height
                   then None
                 else if left_height \<noteq> 0 \<and> right_height \<noteq> 0
                   then Some (True, if c = Red then left_height else left_height + 1)
                 else Some (False, 0)))"

text \<open>\<^verbatim>\<open>validate()\<close>, lines 115-128: \<open>Some ()\<close> when no assertion fails.\<close>

definition validate :: "('k::linorder, 'v) rbtree \<Rightarrow> unit option" where
  "validate t =
     (if is_empty_rb t then (if size_rb t = 0 then Some () else None)
      else if size_rb t = 0 then None
      else case validate_parents (m_root t) None of
             None \<Rightarrow> None
           | Some u \<Rightarrow>
               (case validate_red_black_tree (m_root t) of
                  None \<Rightarrow> None
                | Some (is_valid, height) \<Rightarrow>
                    if \<not> is_valid \<or> height = 0 then None else Some ()))"

section \<open>Traversal\<close>

text \<open>
  \<^verbatim>\<open>visit_inorder(node, visitor)\<close>, lines 629-645. A visitor is a closure: it reads the
  key and the value, may change what it has captured (the state \<open>'s\<close>) and returns
  whether to continue. The result is the returned \<^verbatim>\<open>bool\<close> and the visitor's state.
\<close>

fun visit_inorder ::
  "('k, 'v) node \<Rightarrow> ('k \<Rightarrow> 'v \<Rightarrow> 's \<Rightarrow> bool \<times> 's) \<Rightarrow> 's \<Rightarrow> bool \<times> 's" where
  "visit_inorder Null visitor s = (True, s)"
| "visit_inorder (Node a k v p l r c) visitor s =
     (case visit_inorder l visitor s of
        (False, s1) \<Rightarrow> (False, s1)
      | (True, s1) \<Rightarrow>
          (case visitor k v s1 of
             (False, s2) \<Rightarrow> (False, s2)
           | (True, s2) \<Rightarrow> visit_inorder r visitor s2))"

text \<open>The public \<^verbatim>\<open>visit_inorder(visitor)\<close>, lines 131-134, returns nothing.\<close>

definition visit_inorder_rb ::
  "('k, 'v) rbtree \<Rightarrow> ('k \<Rightarrow> 'v \<Rightarrow> 's \<Rightarrow> bool \<times> 's) \<Rightarrow> 's \<Rightarrow> 's" where
  "visit_inorder_rb t visitor s = snd (visit_inorder (m_root t) visitor s)"

section \<open>Iteration\<close>

text \<open>
  A raw pointer is followed by looking its address up among the live nodes, which are
  the nodes of the tree: \<open>node_at root a\<close> is the node stored at \<open>a\<close>, and \<open>None\<close> when
  no node of the tree is stored there (the pointer dangles).
\<close>

fun node_at :: "('k, 'v) node \<Rightarrow> addr \<Rightarrow> ('k, 'v) node option" where
  "node_at Null x = None"
| "node_at (Node a k v p l r c) x =
     (if x = a then Some (Node a k v p l r c)
      else case node_at l x of
             Some n \<Rightarrow> Some n
           | None \<Rightarrow> node_at r x)"

text \<open>
  The loop of \<^verbatim>\<open>next_node\<close> (\<open>dir = DIR_RIGHT\<close>, lines 471-475) and of \<^verbatim>\<open>prev_node\<close>
  (\<open>dir = DIR_LEFT\<close>, lines 487-491) with the \<^verbatim>\<open>return node->parent\<close> that follows it:
  \<^verbatim>\<open>while (node->parent != nullptr && node == node->parent->child(dir).get())
      node = node->parent;\<close>
  A loop that does not end, or that follows a dangling pointer, has the value \<open>None\<close>.
\<close>

partial_function (option) ascend ::
  "('k, 'v) node \<Rightarrow> direction \<Rightarrow> addr \<Rightarrow> addr option option" where
  "ascend root dir x =
     (case node_at root x of
        None \<Rightarrow> None
      | Some Null \<Rightarrow> None
      | Some (Node a k v p l r c) \<Rightarrow>
          (case p of
             None \<Rightarrow> Some None
           | Some pa \<Rightarrow>
               (case node_at root pa of
                  None \<Rightarrow> None
                | Some pn \<Rightarrow>
                    if get (child pn dir) = Some x then ascend root dir pa
                    else Some (Some pa))))"

declare ascend.simps [code]

text \<open>\<^verbatim>\<open>next_node(node)\<close>, lines 462-476, and \<^verbatim>\<open>prev_node(node)\<close>, lines 478-492.\<close>

definition next_node :: "('k, 'v) node \<Rightarrow> addr option \<Rightarrow> addr option option" where
  "next_node root node =
     (case node of
        None \<Rightarrow> Some None
      | Some x \<Rightarrow>
          (case node_at root x of
             None \<Rightarrow> None
           | Some Null \<Rightarrow> None
           | Some (Node a k v p l r c) \<Rightarrow>
               if r \<noteq> Null then map_option get (find_min r)
               else ascend root DIR_RIGHT x))"

definition prev_node :: "('k, 'v) node \<Rightarrow> addr option \<Rightarrow> addr option option" where
  "prev_node root node =
     (case node of
        None \<Rightarrow> Some None
      | Some x \<Rightarrow>
          (case node_at root x of
             None \<Rightarrow> None
           | Some Null \<Rightarrow> None
           | Some (Node a k v p l r c) \<Rightarrow>
               if l \<noteq> Null then map_option get (find_max l)
               else ascend root DIR_LEFT x))"

text \<open>
  \<^verbatim>\<open>InorderIter\<close>, lines 149-220: \<open>m_tree\<close> is the address of the container and \<open>m_node\<close>
  the current node. The operations read the container that \<open>m_tree\<close> points to: its state
  \<open>t\<close> is their first argument. Equality of iterators (lines 195-197) compares both
  fields, which is equality of the records.
\<close>

record inorder_iter =
  m_tree :: addr
  m_node :: "addr option"

text \<open>\<^verbatim>\<open>begin()\<close> and \<^verbatim>\<open>end()\<close>, lines 225-239, of the container stored at \<open>this\<close>.\<close>

definition begin_rb :: "addr \<Rightarrow> ('k, 'v) rbtree \<Rightarrow> inorder_iter option" where
  "begin_rb this t =
     map_option (\<lambda>n. \<lparr>m_tree = this, m_node = get n\<rparr>) (find_min (m_root t))"

definition end_rb :: "addr \<Rightarrow> ('k, 'v) rbtree \<Rightarrow> inorder_iter" where
  "end_rb this t = \<lparr>m_tree = this, m_node = None\<rparr>"

text \<open>\<^verbatim>\<open>operator++\<close>, lines 168-171, and \<^verbatim>\<open>operator--\<close>, lines 179-187.\<close>

definition iter_inc :: "('k, 'v) rbtree \<Rightarrow> inorder_iter \<Rightarrow> inorder_iter option" where
  "iter_inc t it = map_option (\<lambda>n. it\<lparr>m_node := n\<rparr>) (next_node (m_root t) (m_node it))"

definition iter_dec :: "('k, 'v) rbtree \<Rightarrow> inorder_iter \<Rightarrow> inorder_iter option" where
  "iter_dec t it =
     (if m_node it = None
      then map_option (\<lambda>n. it\<lparr>m_node := get n\<rparr>) (find_max (m_root t))
      else map_option (\<lambda>n. it\<lparr>m_node := n\<rparr>) (prev_node (m_root t) (m_node it)))"

section \<open>The invariants of the data model\<close>

text \<open>
  The six invariants of the data model, as the specification words them. \<open>keys\<close> is the
  set of keys of a subtree, \<open>black_counts\<close> the set of the numbers of black nodes on the
  paths from a node down to an empty position, \<open>count_nodes\<close> the number of nodes
  reachable from a node.
\<close>

fun keys :: "('k, 'v) node \<Rightarrow> 'k set" where
  "keys Null = {}"
| "keys (Node a k v p l r c) = keys l \<union> {k} \<union> keys r"

fun bst_order :: "('k::linorder, 'v) node \<Rightarrow> bool" where
  "bst_order Null = True"
| "bst_order (Node a k v p l r c) =
     ((\<forall>x \<in> keys l. x < k) \<and> (\<forall>x \<in> keys r. k < x) \<and> bst_order l \<and> bst_order r)"

fun no_red_red :: "('k, 'v) node \<Rightarrow> bool" where
  "no_red_red Null = True"
| "no_red_red (Node a k v p l r c) =
     (\<not> (c = Red \<and> (is_red l \<or> is_red r)) \<and> no_red_red l \<and> no_red_red r)"

fun black_counts :: "('k, 'v) node \<Rightarrow> nat set" where
  "black_counts Null = {0}"
| "black_counts (Node a k v p l r c) =
     (\<lambda>n. if c = Black then Suc n else n) ` (black_counts l \<union> black_counts r)"

definition black_balanced :: "('k, 'v) node \<Rightarrow> bool" where
  "black_balanced n = (card (black_counts n) = 1)"

definition root_black :: "('k, 'v) node \<Rightarrow> bool" where
  "root_black n = (\<not> is_red n)"

fun parents_ok :: "('k, 'v) node \<Rightarrow> addr option \<Rightarrow> bool" where
  "parents_ok Null q = True"
| "parents_ok (Node a k v p l r c) q =
     (p = q \<and> parents_ok l (Some a) \<and> parents_ok r (Some a))"

fun count_nodes :: "('k, 'v) node \<Rightarrow> nat" where
  "count_nodes Null = 0"
| "count_nodes (Node a k v p l r c) = count_nodes l + 1 + count_nodes r"

definition size_ok :: "('k, 'v) rbtree \<Rightarrow> bool" where
  "size_ok t = (unat (m_size t) = count_nodes (m_root t))"

definition invariants :: "('k::linorder, 'v) rbtree \<Rightarrow> bool" where
  "invariants t =
     (bst_order (m_root t) \<and> no_red_red (m_root t) \<and> black_balanced (m_root t)
      \<and> root_black (m_root t) \<and> parents_ok (m_root t) None \<and> size_ok t)"

text \<open>
  The nodes of a subtree in inorder, each as (address, key, value); the keys and the
  entries in that order.
\<close>

fun inorder :: "('k, 'v) node \<Rightarrow> (addr \<times> 'k \<times> 'v) list" where
  "inorder Null = []"
| "inorder (Node a k v p l r c) = inorder l @ (a, k, v) # inorder r"

definition inorder_keys :: "('k, 'v) node \<Rightarrow> 'k list" where
  "inorder_keys n = map (\<lambda>(a, k, v). k) (inorder n)"

definition entries :: "('k, 'v) node \<Rightarrow> ('k \<times> 'v) list" where
  "entries n = map snd (inorder n)"

section \<open>Sequences of operations\<close>

text \<open>
  A call of the public interface; an insertion carries the address the allocator hands
  out if the call creates a node. A sequence of calls runs from left to right and has
  no result once a call has none.
\<close>

datatype ('k, 'v) operation =
    Insert addr 'k 'v
  | Insert_or_update addr 'k 'v
  | Remove 'k

fun apply_op :: "('k::linorder, 'v) rbtree \<Rightarrow> ('k, 'v) operation \<Rightarrow> ('k, 'v) rbtree option" where
  "apply_op t (Insert fresh key val) = map_option fst (insert_rb t fresh key val)"
| "apply_op t (Insert_or_update fresh key val) = map_option fst (insert_or_update t fresh key val)"
| "apply_op t (Remove key) = map_option fst (remove_rb t key)"

fun apply_ops ::
  "('k::linorder, 'v) rbtree \<Rightarrow> ('k, 'v) operation list \<Rightarrow> ('k, 'v) rbtree option" where
  "apply_ops t [] = Some t"
| "apply_ops t (x # xs) =
     (case apply_op t x of
        None \<Rightarrow> None
      | Some t' \<Rightarrow> apply_ops t' xs)"

section \<open>Auxiliary notions for the statements\<close>

text \<open>
  The number of calls of \<^verbatim>\<open>remove_rebalance\<close> that \<^verbatim>\<open>try_remove_key\<close> makes: one at each
  level of the recursion at which \<^verbatim>\<open>is_done\<close> is false after the recursive call (lines
  599-601), none at the level that unlinks a node or reaches \<^verbatim>\<open>nullptr\<close>.
\<close>

fun remove_fixups :: "('k::linorder, 'v) node \<Rightarrow> bool \<Rightarrow> 'k \<Rightarrow> 64 word \<Rightarrow> nat" where
  "remove_fixups Null is_done key sz = 0"
| "remove_fixups (Node a k v p l r c) is_done key sz =
     (if k = key \<and> (l = Null \<or> r = Null) then 0
      else
        (case (if k = key then
                 (case find_max l of
                    None \<Rightarrow> None
                  | Some Null \<Rightarrow> None
                  | Some (Node sa sk sv sp sl sr sc) \<Rightarrow> Some (sk, sk))
               else Some (k, key)) of
           None \<Rightarrow> 0
         | Some (k', key') \<Rightarrow>
             (if k' < key' then remove_fixups r is_done key' sz
              else remove_fixups l is_done key' sz)
             + (case (if k' < key' then try_remove_key r is_done key' sz
                      else try_remove_key l is_done key' sz) of
                  None \<Rightarrow> 0
                | Some (ch, d, sz', res) \<Rightarrow> if \<not> d then 1 else 0)))"

text \<open>
  A tree without its values: the addresses, keys, parent links, colours and the shape.
\<close>

fun skeleton :: "('k, 'v) node \<Rightarrow> ('k, unit) node" where
  "skeleton Null = Null"
| "skeleton (Node a k v p l r c) = Node a k () p (skeleton l) (skeleton r) c"

text \<open>
  The order between a node and its own two children, which is what lines 406-407
  compare: the key of a left child is less than the key of its parent, and the key of a
  right child is greater.
\<close>

fun local_order :: "('k::linorder, 'v) node \<Rightarrow> bool" where
  "local_order Null = True"
| "local_order (Node a k v p l r c) =
     (\<not> key_ge l k \<and> \<not> key_le r k \<and> local_order l \<and> local_order r)"

text \<open>The number of black nodes on the leftmost path from a node to an empty position.\<close>

fun bheight :: "('k, 'v) node \<Rightarrow> nat" where
  "bheight Null = 0"
| "bheight (Node a k v p l r c) = (if c = Black then Suc (bheight l) else bheight l)"

text \<open>
  The node that holds a key: the descent of \<^verbatim>\<open>try_find_key\<close>, with the node it stops at as
  the result (\<open>Null\<close> when the key is absent).
\<close>

fun find_node :: "('k::linorder, 'v) node \<Rightarrow> 'k \<Rightarrow> ('k, 'v) node" where
  "find_node Null key = Null"
| "find_node (Node a k v p l r c) key =
     (if key < k then find_node l key
      else if key > k then find_node r key
      else Node a k v p l r c)"

text \<open>
  A traversal with early termination, as the specification describes it: the visitor is
  called on the entries from left to right, and the run ends with the first call that
  returns the stop signal.
\<close>

fun visit_list ::
  "('k \<Rightarrow> 'v \<Rightarrow> 's \<Rightarrow> bool \<times> 's) \<Rightarrow> ('k \<times> 'v) list \<Rightarrow> 's \<Rightarrow> bool \<times> 's" where
  "visit_list visitor [] s = (True, s)"
| "visit_list visitor ((k, v) # xs) s =
     (case visitor k v s of
        (False, s') \<Rightarrow> (False, s')
      | (True, s') \<Rightarrow> visit_list visitor xs s')"

text \<open>
  A visitor that writes down every entry it is called on and answers what the predicate
  \<open>P\<close> says: \<open>True\<close> to continue, \<open>False\<close> to stop.
\<close>

definition recording ::
  "('k \<Rightarrow> 'v \<Rightarrow> bool) \<Rightarrow> 'k \<Rightarrow> 'v \<Rightarrow> ('k \<times> 'v) list \<Rightarrow> bool \<times> ('k \<times> 'v) list" where
  "recording P k v visited = (P k v, visited @ [(k, v)])"

text \<open>
  The addresses of the nodes of a subtree in inorder. In a sequence without repetitions,
  \<open>next_in\<close> and \<open>prev_in\<close> are the element after and the element before a given one;
  on the addresses in inorder they are the inorder successor and the inorder
  predecessor of a node, and \<open>None\<close> is the end position (no node).
\<close>

definition addrs :: "('k, 'v) node \<Rightarrow> addr list" where
  "addrs n = map fst (inorder n)"

definition next_in :: "'a list \<Rightarrow> 'a \<Rightarrow> 'a option" where
  "next_in xs x =
     (case dropWhile (\<lambda>y. y \<noteq> x) xs of
        y # z # zs \<Rightarrow> Some z
      | _ \<Rightarrow> None)"

definition prev_in :: "'a list \<Rightarrow> 'a \<Rightarrow> 'a option" where
  "prev_in xs x =
     (case rev (takeWhile (\<lambda>y. y \<noteq> x) xs) of
        [] \<Rightarrow> None
      | z # zs \<Rightarrow> Some z)"

text \<open>
  The allocator hands out an address at which no node of the tree is stored: the
  condition on the addresses that a sequence of calls carries, checked against the tree
  that each call finds.
\<close>

fun fresh_addresses :: "('k::linorder, 'v) rbtree \<Rightarrow> ('k, 'v) operation list \<Rightarrow> bool" where
  "fresh_addresses t [] = True"
| "fresh_addresses t (x # xs) =
     ((case x of
         Insert fresh key val \<Rightarrow> fresh \<notin> set (addrs (m_root t))
       | Insert_or_update fresh key val \<Rightarrow> fresh \<notin> set (addrs (m_root t))
       | Remove key \<Rightarrow> True)
      \<and> (case apply_op t x of
            None \<Rightarrow> True
          | Some t' \<Rightarrow> fresh_addresses t' xs))"

text \<open>
  A subtree as \<^verbatim>\<open>try_insert_key_val\<close> hands it to its caller: a red node may have a red
  child at the top of the subtree, where the caller's \<^verbatim>\<open>insert_rebalance\<close> looks, but
  not both children red, and there is no such pair further down.
\<close>

fun red_red_at_top_only :: "('k, 'v) node \<Rightarrow> bool" where
  "red_red_at_top_only Null = True"
| "red_red_at_top_only (Node a k v p l r c) =
     (no_red_red l \<and> no_red_red r \<and> \<not> (c = Red \<and> is_red l \<and> is_red r))"

text \<open>The calls that insert.\<close>

fun is_insertion :: "('k, 'v) operation \<Rightarrow> bool" where
  "is_insertion (Insert fresh key val) = True"
| "is_insertion (Insert_or_update fresh key val) = True"
| "is_insertion (Remove key) = False"

section \<open>Basic facts about the model\<close>

declare double_rotation.simps(2) [simp del]
declare insert_rebalance.simps [simp del]
declare remove_rebalance.simps [simp del]

lemma rbtree_eta: "\<lparr>m_root = m_root t, m_size = m_size t\<rparr> = (t::('k, 'v) rbtree)"
  by simp

lemma get_Null: "(get n = None) = (n = Null)"
  by (cases n) auto

lemma is_red_Node: "is_red n \<Longrightarrow> \<exists>a k v p l r. n = Node a k v p l r Red"
  by (cases n) auto

subsection \<open>The guarded dereferences never fail\<close>

lemma single_rotation_Node:
  "\<exists>a k v p l r c. single_rotation n dir = Some (Node a k v p l r c)"
  if "child n (opp dir) \<noteq> Null"
proof (cases n)
  case Null
  with that show ?thesis by simp
next
  case (Node a k v p l r c)
  with that show ?thesis by (cases dir; cases l; cases r) auto
qed

lemma insert_rebalance_Node:
  "\<exists>a' k' v' p' l' r' c'.
     insert_rebalance (Node a k v p l r c) dir = Some (Node a' k' v' p' l' r' c')"
  by (cases dir)
    (auto simp: insert_rebalance.simps double_rotation.simps Let_def dest!: is_red_Node)

lemma insert_rebalance_defined [simp]:
  "insert_rebalance (Node a k v p l r c) dir \<noteq> Some Null"
  "insert_rebalance (Node a k v p l r c) dir \<noteq> None"
  using insert_rebalance_Node [of a k v p l r c dir] by auto

lemma find_min_Node: "find_min n = Some m \<Longrightarrow> (m = Null) = (n = Null)"
  by (induction n arbitrary: m rule: find_min.induct) (auto split: if_splits)

lemma find_min_total: "parents_ok n q \<Longrightarrow> \<exists>m. find_min n = Some m"
  by (induction n arbitrary: q rule: find_min.induct) auto

subsection \<open>Insertion: result, size and totality\<close>

lemma try_insert_Node:
  "try_insert_key_val fresh par n key val allow sz = Some (n', sz', res) \<Longrightarrow> n' \<noteq> Null"
proof (induction n arbitrary: par n' sz' res)
  case Null
  then show ?case by auto
next
  case (Node a k v p l r c)
  show ?case
    using Node.prems by (auto split: if_splits option.splits)
qed

lemma try_insert_result:
  "try_insert_key_val fresh par n key val allow sz = Some (n', sz', res) \<Longrightarrow>
     (res = Inserted) = (try_find_key n key = None)
     \<and> sz' = (if res = Inserted then sz + 1 else sz)
     \<and> (res = Updated \<longrightarrow> allow) \<and> (res = Failed \<longrightarrow> \<not> allow)"
proof (induction n arbitrary: par n' sz' res)
  case Null
  then show ?case by auto
next
  case (Node a k v p l r c)
  show ?case
  proof (cases "key < k")
    case True
    with Node.prems obtain l' where
      "try_insert_key_val fresh (Some a) l key val allow sz = Some (l', sz', res)"
      by (auto split: option.splits if_splits)
    from Node.IH(1) [OF this] True show ?thesis by simp
  next
    case False
    show ?thesis
    proof (cases "k < key")
      case True
      with Node.prems False obtain r' where
        "try_insert_key_val fresh (Some a) r key val allow sz = Some (r', sz', res)"
        by (auto split: option.splits if_splits)
      from Node.IH(2) [OF this] True False show ?thesis by simp
    next
      case kk: False
      with False Node.prems show ?thesis by (auto split: if_splits)
    qed
  qed
qed

lemma try_insert_total:
  "parents_ok n par \<Longrightarrow>
     \<exists>n' sz' res. try_insert_key_val fresh par n key val allow sz = Some (n', sz', res)"
proof (induction n arbitrary: par)
  case Null
  then show ?case by simp
next
  case (Node a k v p l r c)
  from Node.prems have pl: "parents_ok l (Some a)" and pr: "parents_ok r (Some a)"
    and pp: "p = par" by auto
  from Node.IH(1) [OF pl] obtain l' szl resl where
    l: "try_insert_key_val fresh (Some a) l key val allow sz = Some (l', szl, resl)" by blast
  from Node.IH(2) [OF pr] obtain r' szr resr where
    r: "try_insert_key_val fresh (Some a) r key val allow sz = Some (r', szr, resr)" by blast
  show ?case
    using l r pp insert_rebalance_Node [of a k v p l' r c DIR_LEFT]
      insert_rebalance_Node [of a k v p l r' c DIR_RIGHT]
    by auto
qed

lemma finish_insert_props:
  "n \<noteq> Null \<Longrightarrow> \<exists>t'. finish_insert (n, sz, res) = Some (t', res) \<and> m_size t' = sz"
  by (cases n) auto

subsection \<open>Insertion of a key that is present\<close>

lemma try_insert_present:
  "try_find_key n key = Some old \<Longrightarrow> parents_ok n par \<Longrightarrow>
     try_insert_key_val fresh par n key val False sz = Some (n, sz, Failed)
     \<and> (\<exists>n'. try_insert_key_val fresh par n key val True sz = Some (n', sz, Updated)
           \<and> skeleton n' = skeleton n
           \<and> (\<exists>xs a ys. inorder n = xs @ (a, key, old) # ys
                 \<and> inorder n' = xs @ (a, key, val) # ys)
           \<and> try_find_key n' key = Some val
           \<and> (\<forall>k'. k' \<noteq> key \<longrightarrow> try_find_key n' k' = try_find_key n k'))"
proof (induction n arbitrary: par)
  case Null
  then show ?case by simp
next
  case (Node a k v p l r c)
  from Node.prems have pl: "parents_ok l (Some a)" and pr: "parents_ok r (Some a)"
    and pp: "p = par" by auto
  show ?case
  proof (cases "key < k")
    case True
    with Node.prems have "try_find_key l key = Some old" by simp
    from Node.IH(1) [OF this pl] obtain l' xs b ys where
      f: "try_insert_key_val fresh (Some a) l key val False sz = Some (l, sz, Failed)"
      and u: "try_insert_key_val fresh (Some a) l key val True sz = Some (l', sz, Updated)"
      and sk: "skeleton l' = skeleton l"
      and io: "inorder l = xs @ (b, key, old) # ys" "inorder l' = xs @ (b, key, val) # ys"
      and fk: "try_find_key l' key = Some val"
      and fo: "\<forall>k'. k' \<noteq> key \<longrightarrow> try_find_key l' k' = try_find_key l k'" by blast
    have "\<exists>xs' a' ys'. inorder (Node a k v p l r c) = xs' @ (a', key, old) # ys'
            \<and> inorder (Node a k v p l' r c) = xs' @ (a', key, val) # ys'"
      using io by (intro exI [of _ xs] exI [of _ b] exI [of _ "ys @ (a, k, v) # inorder r"]) simp
    with True f u sk fk fo show ?thesis by simp
  next
    case False
    show ?thesis
    proof (cases "k < key")
      case True
      with False Node.prems have "try_find_key r key = Some old" by simp
      from Node.IH(2) [OF this pr] obtain r' xs b ys where
        f: "try_insert_key_val fresh (Some a) r key val False sz = Some (r, sz, Failed)"
        and u: "try_insert_key_val fresh (Some a) r key val True sz = Some (r', sz, Updated)"
        and sk: "skeleton r' = skeleton r"
        and io: "inorder r = xs @ (b, key, old) # ys" "inorder r' = xs @ (b, key, val) # ys"
        and fk: "try_find_key r' key = Some val"
        and fo: "\<forall>k'. k' \<noteq> key \<longrightarrow> try_find_key r' k' = try_find_key r k'" by blast
      have "\<exists>xs' a' ys'. inorder (Node a k v p l r c) = xs' @ (a', key, old) # ys'
              \<and> inorder (Node a k v p l r' c) = xs' @ (a', key, val) # ys'"
        using io
        by (intro exI [of _ "inorder l @ (a, k, v) # xs"] exI [of _ b] exI [of _ ys]) simp
      with True False f u sk fk fo show ?thesis by simp
    next
      case kk: False
      with False have keq: "key = k" by simp
      with Node.prems have "old = v" by simp
      have "\<exists>xs' a' ys'. inorder (Node a k v p l r c) = xs' @ (a', key, old) # ys'
              \<and> inorder (Node a k val p l r c) = xs' @ (a', key, val) # ys'"
        using keq \<open>old = v\<close>
        by (intro exI [of _ "inorder l"] exI [of _ a] exI [of _ "inorder r"]) simp
      with keq pp show ?thesis by auto
    qed
  qed
qed

subsection \<open>Removal of a key that is absent\<close>

lemma try_remove_key_absent:
  "try_find_key n key = None \<Longrightarrow> try_remove_key n d key sz = Some (n, True, sz, None)"
  by (induction n) (auto split: if_splits)

lemma remove_fixups_absent:
  "try_find_key n key = None \<Longrightarrow> remove_fixups n d key sz = 0"
  by (induction n) (auto split: if_splits simp: try_remove_key_absent)

section \<open>Facts about validation\<close>

lemma black_counts_finite [simp]: "finite (black_counts n)"
  by (induction n) auto

lemma bheight_in_counts: "bheight n \<in> black_counts n"
  by (induction n) auto

lemma black_balanced_iff: "black_balanced n = (black_counts n = {bheight n})"
proof
  assume "black_balanced n"
  then obtain x where "black_counts n = {x}"
    by (auto simp: black_balanced_def card_1_singleton_iff)
  with bheight_in_counts [of n] show "black_counts n = {bheight n}" by auto
next
  assume "black_counts n = {bheight n}"
  then show "black_balanced n" by (simp add: black_balanced_def)
qed

lemma union_singleton:
  assumes "x \<in> A" and "y \<in> B"
  shows "(A \<union> B = {x}) = (A = {x} \<and> B = {y} \<and> x = y)"
proof
  assume u: "A \<union> B = {x}"
  then have "A \<subseteq> {x}" and "B \<subseteq> {x}" by auto
  with assms show "A = {x} \<and> B = {y} \<and> x = y" by auto
next
  assume "A = {x} \<and> B = {y} \<and> x = y"
  then show "A \<union> B = {x}" by auto
qed

lemma black_balanced_Node:
  "black_balanced (Node a k v p l r c)
     = (black_balanced l \<and> black_balanced r \<and> bheight l = bheight r)"
proof -
  let ?f = "\<lambda>n. if c = Black then Suc n else n"
  have inj: "inj ?f" by (auto simp: inj_on_def)
  have "black_balanced (Node a k v p l r c)
      = (?f ` (black_counts l \<union> black_counts r) = ?f ` {bheight l})"
    by (simp add: black_balanced_iff)
  also have "\<dots> = (black_counts l \<union> black_counts r = {bheight l})"
    using inj by (rule inj_image_eq_iff)
  also have "\<dots> = (black_counts l = {bheight l} \<and> black_counts r = {bheight r}
      \<and> bheight l = bheight r)"
    by (rule union_singleton [OF bheight_in_counts bheight_in_counts])
  finally show ?thesis by (simp add: black_balanced_iff)
qed

lemma black_balanced_Null [simp]: "black_balanced Null"
  by (simp add: black_balanced_def)

lemma bheight_le_count: "bheight n \<le> count_nodes n"
  by (induction n) auto

lemma validate_parents_iff:
  "validate_parents n q = (if parents_ok n q then Some () else None)"
  by (induction n arbitrary: q) (auto split: option.splits)

lemma height_word_neq_0: "n + 1 < 2 ^ 64 \<Longrightarrow> (word_of_nat (n + 1) :: 64 word) \<noteq> 0"
  using of_nat_neq_0 [of "n + 1", where 'a = 64] by simp

lemma height_word_inj:
  "m + 1 < 2 ^ 64 \<Longrightarrow> n + 1 < 2 ^ 64 \<Longrightarrow>
     ((word_of_nat (m + 1) :: 64 word) = word_of_nat (n + 1)) = (m = n)"
  by (simp add: word_of_nat_eq_iff take_bit_nat_eq_self)

lemma validate_red_black_tree_iff:
  "count_nodes n + 1 < 2 ^ 64 \<Longrightarrow>
     validate_red_black_tree n
       = (if no_red_red n \<and> local_order n \<and> black_balanced n
          then Some (True, word_of_nat (bheight n + 1)) else None)"
proof (induction n)
  case Null
  then show ?case by simp
next
  case (Node a k v p l r c)
  from Node.prems have bl: "count_nodes l + 1 < 2 ^ 64" and br: "count_nodes r + 1 < 2 ^ 64"
    by auto
  from bl bheight_le_count [of l] have hl: "bheight l + 1 < 2 ^ 64" by simp
  from br bheight_le_count [of r] have hr: "bheight r + 1 < 2 ^ 64" by simp
  note IHl = Node.IH(1) [OF bl] and IHr = Node.IH(2) [OF br]
  note nz = height_word_neq_0 [OF hl] height_word_neq_0 [OF hr]
  note inj = height_word_inj [OF hl hr]
  show ?case
  proof (cases "no_red_red l \<and> local_order l \<and> black_balanced l
               \<and> no_red_red r \<and> local_order r \<and> black_balanced r")
    case True
    with IHl IHr nz inj show ?thesis
      by (cases c) (auto simp: black_balanced_Node)
  next
    case False
    with IHl IHr show ?thesis
      by (auto simp: black_balanced_Node)
  qed
qed

lemma key_ge_keys: "key_ge l k \<Longrightarrow> \<exists>x \<in> keys l. k \<le> x"
  by (cases l) auto

lemma key_le_keys: "key_le r k \<Longrightarrow> \<exists>x \<in> keys r. x \<le> k"
  by (cases r) auto

lemma bst_order_local: "bst_order n \<Longrightarrow> local_order n"
  by (induction n) (auto dest!: key_ge_keys key_le_keys)

section \<open>Structure kept by the rotations and the fixups\<close>

subsection \<open>Rotations and fixups keep the inorder sequence\<close>

lemma inorder_set_parent [simp]: "inorder (set_parent n q) = inorder n"
  by (cases n) auto

lemma inorder_set_color [simp]: "inorder (set_color n c) = inorder n"
  by (cases n) auto

lemma inorder_set_child:
  "inorder x = inorder (child n dir) \<Longrightarrow> inorder (set_child n dir x) = inorder n"
  by (cases n; cases dir) auto

lemma child_set_color [simp]: "child (set_color n c) dir = child n dir"
  by (cases n; cases dir) auto

lemma inorder_single_rotation:
  "single_rotation n dir = Some n' \<Longrightarrow> inorder n' = inorder n"
  by (cases "(n, dir)" rule: single_rotation.cases) auto

lemma inorder_double_rotation:
  "double_rotation n dir = Some n' \<Longrightarrow> inorder n' = inorder n"
proof (cases n)
  case Null
  then show ?thesis if "double_rotation n dir = Some n'" using that by simp
next
  case (Node a k v p l r c)
  assume "double_rotation n dir = Some n'"
  with Node obtain ch where
    1: "single_rotation (child n (opp dir)) (opp dir) = Some ch"
    and 2: "single_rotation (set_child n (opp dir) ch) dir = Some n'"
    by (auto simp: double_rotation.simps(2) bind_eq_Some_conv)
  from inorder_single_rotation [OF 1] have "inorder (set_child n (opp dir) ch) = inorder n"
    by (rule inorder_set_child)
  with inorder_single_rotation [OF 2] show ?thesis by simp
qed

lemma inorder_insert_rebalance:
  "insert_rebalance n dir = Some n' \<Longrightarrow> inorder n' = inorder n"
  by (cases n)
    (auto simp: insert_rebalance.simps Let_def split: if_splits
      dest: inorder_single_rotation inorder_double_rotation)

lemma inorder_recolor3: "recolor3 n c = Some n' \<Longrightarrow> inorder n' = inorder n"
  by (cases "(n, c)" rule: recolor3.cases) auto

lemma inorder_unlink: "unlink a p c ch d = Some (n, d') \<Longrightarrow> inorder n = inorder ch"
  by (cases ch) (auto split: if_splits)

subsection \<open>Rotations and fixups keep the parent links\<close>

lemma parents_ok_set_parent: "parents_ok n q \<Longrightarrow> parents_ok (set_parent n q') q'"
  by (cases n) auto

lemma parents_ok_set_color [simp]: "parents_ok (set_color n c) q = parents_ok n q"
  by (cases n) auto

lemma get_set_color [simp]: "get (set_color n c) = get n"
  by (cases n) auto

lemma get_set_child [simp]: "get (set_child n dir x) = get n"
  by (cases n; cases dir) auto

lemma parents_ok_child: "parents_ok n q \<Longrightarrow> n \<noteq> Null \<Longrightarrow> parents_ok (child n dir) (get n)"
  by (cases n; cases dir) auto

lemma parents_ok_set_child:
  "parents_ok n q \<Longrightarrow> parents_ok x (get n) \<Longrightarrow> parents_ok (set_child n dir x) q"
  by (cases n; cases dir) auto

lemma get_single_rotation:
  "single_rotation n dir = Some n' \<Longrightarrow> get n' = get (child n (opp dir))"
  by (cases "(n, dir)" rule: single_rotation.cases) auto

lemma parents_ok_single_rotation:
  "single_rotation n dir = Some n' \<Longrightarrow> parents_ok n q \<Longrightarrow> parents_ok n' q"
  by (cases "(n, dir)" rule: single_rotation.cases) (auto intro: parents_ok_set_parent)

lemma parents_ok_double_rotation:
  assumes "double_rotation n dir = Some n'" and "parents_ok n q"
  shows "parents_ok n' q"
proof (cases n)
  case Null
  with assms show ?thesis by simp
next
  case (Node a k v p l r c)
  with assms obtain ch where
    1: "single_rotation (child n (opp dir)) (opp dir) = Some ch"
    and 2: "single_rotation (set_child n (opp dir) ch) dir = Some n'"
    by (auto simp: double_rotation.simps(2) bind_eq_Some_conv)
  from Node have "n \<noteq> Null" by simp
  from parents_ok_child [OF assms(2) this] have "parents_ok (child n (opp dir)) (get n)" .
  from parents_ok_single_rotation [OF 1 this] have "parents_ok ch (get n)" .
  from parents_ok_set_child [OF assms(2) this]
  have "parents_ok (set_child n (opp dir) ch) q" .
  from parents_ok_single_rotation [OF 2 this] show ?thesis .
qed

lemma parents_ok_insert_rebalance:
  "insert_rebalance n dir = Some n' \<Longrightarrow> parents_ok n q \<Longrightarrow> parents_ok n' q"
  by (cases n)
    (auto simp: insert_rebalance.simps Let_def split: if_splits
      dest: parents_ok_single_rotation parents_ok_double_rotation)

lemma parents_ok_recolor3: "recolor3 n c = Some n' \<Longrightarrow> parents_ok n q \<Longrightarrow> parents_ok n' q"
  by (cases "(n, c)" rule: recolor3.cases) auto

lemma parents_ok_unlink:
  "unlink a p c ch d = Some (n, d') \<Longrightarrow> parents_ok ch (Some a) \<Longrightarrow> parents_ok n p"
  by (cases ch) (auto split: if_splits)

lemma parents_ok_try_insert:
  "try_insert_key_val fresh par n key val allow sz = Some (n', sz', res) \<Longrightarrow>
     parents_ok n par \<Longrightarrow> parents_ok n' par"
proof (induction n arbitrary: par n' sz' res)
  case Null
  then show ?case by auto
next
  case (Node a k v p l r c)
  from Node.prems(2) have pl: "parents_ok l (Some a)" and pr: "parents_ok r (Some a)"
    and pp: "p = par" by auto
  show ?case
  proof (cases "key < k")
    case True
    with Node.prems(1) obtain l' where
      rec: "try_insert_key_val fresh (Some a) l key val allow sz = Some (l', sz', res)"
      and fin: "(if res = Inserted then insert_rebalance (Node a k v p l' r c) DIR_LEFT
                 else Some (Node a k v p l' r c)) = Some n'"
      by (auto split: option.splits if_splits)
    from Node.IH(1) [OF rec pl] pr pp have "parents_ok (Node a k v p l' r c) par" by simp
    with fin show ?thesis by (auto split: if_splits dest: parents_ok_insert_rebalance)
  next
    case False
    show ?thesis
    proof (cases "k < key")
      case True
      with False Node.prems(1) obtain r' where
        rec: "try_insert_key_val fresh (Some a) r key val allow sz = Some (r', sz', res)"
        and fin: "(if res = Inserted then insert_rebalance (Node a k v p l r' c) DIR_RIGHT
                   else Some (Node a k v p l r' c)) = Some n'"
        by (auto split: option.splits if_splits)
      from Node.IH(2) [OF rec pr] pl pp have "parents_ok (Node a k v p l r' c) par" by simp
      with fin show ?thesis by (auto split: if_splits dest: parents_ok_insert_rebalance)
    next
      case kk: False
      with False Node.prems show ?thesis by (auto split: if_splits)
    qed
  qed
qed

subsection \<open>The branches of the two fixup-driven recursions\<close>

lemma remove_rebalance_elim:
  assumes "remove_rebalance n dir = Some (n', d)"
  obtains
    (no_sibling) root1 where
      "(if is_red (child n (opp dir)) then single_rotation n dir else Some n) = Some root1"
      "child root1 (opp dir) = Null" "n' = root1" "d = False"
  | (recolor) root1 sa sk sv sp sl sr sc where
      "(if is_red (child n (opp dir)) then single_rotation n dir else Some n) = Some root1"
      "child root1 (opp dir) = Node sa sk sv sp sl sr sc" "\<not> is_red sl" "\<not> is_red sr"
      "n' = set_child (set_color root1 Black) (opp dir) (Node sa sk sv sp sl sr Red)"
      "d = is_red root1"
  | (rotate) root1 sa sk sv sp sl sr sc root2 where
      "(if is_red (child n (opp dir)) then single_rotation n dir else Some n) = Some root1"
      "child root1 (opp dir) = Node sa sk sv sp sl sr sc" "is_red sl \<or> is_red sr"
      "(if is_red (child (Node sa sk sv sp sl sr sc) (opp dir))
        then single_rotation root1 dir else double_rotation root1 dir) = Some root2"
      "recolor3 root2 (if is_red root1 then Red else Black) = Some n'"
      "d = True"
proof (cases n)
  case Null
  with assms show ?thesis by (simp add: remove_rebalance.simps)
next
  case (Node a k v p l r c)
  with assms obtain root1 where
    r1: "(if is_red (child n (opp dir)) then single_rotation n dir else Some n) = Some root1"
    and rest: "(case child root1 (opp dir) of
         Null \<Rightarrow> Some (root1, False)
       | Node sa sk sv sp sl sr sc \<Rightarrow>
           let left_red = is_red sl; right_red = is_red sr in
           if \<not> left_red \<and> \<not> right_red then
             Some (set_child (set_color root1 Black) (opp dir) (Node sa sk sv sp sl sr Red),
                   is_red root1)
           else
             do {
               root2 \<leftarrow> (if is_red (child (Node sa sk sv sp sl sr sc) (opp dir))
                         then single_rotation root1 dir
                         else double_rotation root1 dir);
               root3 \<leftarrow> recolor3 root2 (if is_red root1 then Red else Black);
               Some (root3, True)
             }) = Some (n', d)"
    by (auto simp: remove_rebalance.simps bind_eq_Some_conv)
  show ?thesis
  proof (cases "child root1 (opp dir)")
    case Null
    with rest r1 show ?thesis by (intro no_sibling [of root1]) auto
  next
    case s: (Node sa sk sv sp sl sr sc)
    show ?thesis
    proof (cases "\<not> is_red sl \<and> \<not> is_red sr")
      case True
      with rest s r1 show ?thesis
        by (intro recolor [of root1 sa sk sv sp sl sr sc]) (auto simp: Let_def)
    next
      case False
      with rest s obtain root2 where
        "(if is_red (child (Node sa sk sv sp sl sr sc) (opp dir))
            then single_rotation root1 dir else double_rotation root1 dir) = Some root2"
        "recolor3 root2 (if is_red root1 then Red else Black) = Some n'" "d = True"
        by (auto simp: Let_def bind_eq_Some_conv split: if_splits)
      with False s r1 show ?thesis
        by (intro rotate [of root1 sa sk sv sp sl sr sc root2]) auto
    qed
  qed
qed

lemma try_remove_key_elim:
  assumes "try_remove_key (Node a k v p l r c) is_done key sz = Some (n', d', sz', res)"
  obtains
    (unlink) "k = key" "l = Null \<or> r = Null"
      "unlink a p c (if l = Null then r else l) is_done = Some (n', d')"
      "sz' = sz - 1" "res = Some v"
  | (two_children) sa sk sv sp sl sr sc l' d1 res1 where
      "k = key" "l \<noteq> Null" "r \<noteq> Null"
      "find_max l = Some (Node sa sk sv sp sl sr sc)"
      "try_remove_key l is_done sk sz = Some (l', d1, sz', res1)"
      "(if \<not> d1 then remove_rebalance (Node a sk sv p l' r c) DIR_LEFT
        else Some (Node a sk sv p l' r c, d1)) = Some (n', d')"
      "res = Some v"
  | (right) r' d1 where
      "k \<noteq> key" "k < key"
      "try_remove_key r is_done key sz = Some (r', d1, sz', res)"
      "(if \<not> d1 then remove_rebalance (Node a k v p l r' c) DIR_RIGHT
        else Some (Node a k v p l r' c, d1)) = Some (n', d')"
  | (left) l' d1 where
      "k \<noteq> key" "\<not> k < key"
      "try_remove_key l is_done key sz = Some (l', d1, sz', res)"
      "(if \<not> d1 then remove_rebalance (Node a k v p l' r c) DIR_LEFT
        else Some (Node a k v p l' r c, d1)) = Some (n', d')"
proof (cases "k = key")
  case True
  show ?thesis
  proof (cases "l = Null \<or> r = Null")
    case lr: True
    with True assms show ?thesis
      by (intro unlink) (auto split: option.splits)
  next
    case lr: False
    with True assms obtain sa sk sv sp sl sr sc where
      fm: "find_max l = Some (Node sa sk sv sp sl sr sc)"
      by (auto split: option.splits node.splits)
    with True lr assms obtain l' d1 res1 where
      "try_remove_key l is_done sk sz = Some (l', d1, sz', res1)"
      "(if \<not> d1 then remove_rebalance (Node a sk sv p l' r c) DIR_LEFT
        else Some (Node a sk sv p l' r c, d1)) = Some (n', d')"
      "res = Some v"
      by (auto simp: Let_def split: option.splits if_splits)
    with True lr fm show ?thesis
      by (intro two_children [of sa sk sv sp sl sr sc l' d1 res1]) auto
  qed
next
  case False
  show ?thesis
  proof (cases "k < key")
    case True
    with False assms obtain r' d1 where
      "try_remove_key r is_done key sz = Some (r', d1, sz', res)"
      "(if \<not> d1 then remove_rebalance (Node a k v p l r' c) DIR_RIGHT
        else Some (Node a k v p l r' c, d1)) = Some (n', d')"
      by (auto simp: Let_def split: option.splits if_splits)
    with False True show ?thesis by (intro right [of r' d1]) auto
  next
    case nlt: False
    with False assms obtain l' d1 where
      "try_remove_key l is_done key sz = Some (l', d1, sz', res)"
      "(if \<not> d1 then remove_rebalance (Node a k v p l' r c) DIR_LEFT
        else Some (Node a k v p l' r c, d1)) = Some (n', d')"
      by (auto simp: Let_def split: option.splits if_splits)
    with False nlt show ?thesis by (intro left [of l' d1]) auto
  qed
qed

lemma inorder_remove_rebalance:
  assumes "remove_rebalance n dir = Some (n', d)"
  shows "inorder n' = inorder n"
  using assms
proof (cases rule: remove_rebalance_elim)
  case (no_sibling root1)
  then show ?thesis by (auto split: if_splits dest: inorder_single_rotation)
next
  case (recolor root1 sa sk sv sp sl sr sc)
  from recolor(1) have "inorder root1 = inorder n"
    by (auto split: if_splits dest: inorder_single_rotation)
  moreover have "inorder (Node sa sk sv sp sl sr Red)
      = inorder (child (set_color root1 Black) (opp dir))"
    using recolor(2) by simp
  ultimately show ?thesis using recolor(5) by (simp add: inorder_set_child)
next
  case (rotate root1 sa sk sv sp sl sr sc root2)
  from rotate(1) have "inorder root1 = inorder n"
    by (auto split: if_splits dest: inorder_single_rotation)
  moreover from rotate(4) have "inorder root2 = inorder root1"
    by (auto split: if_splits dest: inorder_single_rotation inorder_double_rotation)
  ultimately show ?thesis using inorder_recolor3 [OF rotate(5)] by simp
qed

lemma parents_ok_remove_rebalance:
  assumes "remove_rebalance n dir = Some (n', d)" and ok: "parents_ok n q"
  shows "parents_ok n' q"
  using assms(1)
proof (cases rule: remove_rebalance_elim)
  case (no_sibling root1)
  with ok show ?thesis by (auto split: if_splits dest: parents_ok_single_rotation)
next
  case (recolor root1 sa sk sv sp sl sr sc)
  from recolor(1) ok have p1: "parents_ok root1 q"
    by (auto split: if_splits dest: parents_ok_single_rotation)
  from recolor(2) have nn: "root1 \<noteq> Null" by auto
  from parents_ok_child [OF p1 nn, of "opp dir"] recolor(2)
  have "parents_ok (Node sa sk sv sp sl sr Red) (get (set_color root1 Black))" by simp
  with p1 show ?thesis unfolding recolor(5) by (intro parents_ok_set_child) simp_all
next
  case (rotate root1 sa sk sv sp sl sr sc root2)
  from rotate(1) ok have p1: "parents_ok root1 q"
    by (auto split: if_splits dest: parents_ok_single_rotation)
  with rotate(4) have "parents_ok root2 q"
    by (auto split: if_splits dest: parents_ok_single_rotation parents_ok_double_rotation)
  with parents_ok_recolor3 [OF rotate(5)] show ?thesis by simp
qed

lemma parents_ok_try_remove:
  "try_remove_key n d key sz = Some (n', d', sz', res) \<Longrightarrow> parents_ok n q \<Longrightarrow>
     parents_ok n' q"
proof (induction n arbitrary: d key sz n' d' sz' res q)
  case Null
  then show ?case by auto
next
  case (Node a k v p l r c)
  from Node.prems(2) have pl: "parents_ok l (Some a)" and pr: "parents_ok r (Some a)"
    and pp: "p = q" by auto
  from Node.prems(1) show ?case
  proof (cases rule: try_remove_key_elim)
    case unlink
    from pl pr have "parents_ok (if l = Null then r else l) (Some a)" by simp
    from parents_ok_unlink [OF unlink(3) this] pp show ?thesis by simp
  next
    case (two_children sa sk sv sp sl sr sc l' d1 res1)
    from Node.IH(1) [OF two_children(5) pl] pr pp
    have "parents_ok (Node a sk sv p l' r c) q" by simp
    with two_children(6) show ?thesis
      by (auto split: if_splits dest: parents_ok_remove_rebalance)
  next
    case (right r' d1)
    from Node.IH(2) [OF right(3) pr] pl pp have "parents_ok (Node a k v p l r' c) q" by simp
    with right(4) show ?thesis by (auto split: if_splits dest: parents_ok_remove_rebalance)
  next
    case (left l' d1)
    from Node.IH(1) [OF left(3) pl] pr pp have "parents_ok (Node a k v p l' r c) q" by simp
    with left(4) show ?thesis by (auto split: if_splits dest: parents_ok_remove_rebalance)
  qed
qed

subsection \<open>Removal returns\<close>

lemma opp_opp [simp]: "opp (opp dir) = dir"
  by (cases dir) auto

lemma child_set_child [simp]: "n \<noteq> Null \<Longrightarrow> child (set_child n dir x) dir = x"
  by (cases n; cases dir) auto

lemma set_child_Null [simp]: "(set_child n dir x = Null) = (n = Null)"
  by (cases n; cases dir) auto

lemma set_color_Null [simp]: "(set_color n c = Null) = (n = Null)"
  by (cases n) auto

lemma single_rotation_some:
  assumes "child n (opp dir) \<noteq> Null"
  shows "\<exists>m. single_rotation n dir = Some m \<and> m \<noteq> Null \<and> child m dir \<noteq> Null
           \<and> child m (opp dir) = child (child n (opp dir)) (opp dir)"
proof (cases n)
  case Null
  with assms show ?thesis by simp
next
  case (Node a k v p l r c)
  with assms show ?thesis by (cases dir; cases l; cases r) auto
qed

lemma double_rotation_some:
  assumes "child n (opp dir) \<noteq> Null" and "child (child n (opp dir)) dir \<noteq> Null"
  shows "\<exists>m. double_rotation n dir = Some m \<and> m \<noteq> Null \<and> child m dir \<noteq> Null
           \<and> child m (opp dir) \<noteq> Null"
proof -
  from assms(1) have nn: "n \<noteq> Null" by auto
  from assms(2) have "child (child n (opp dir)) (opp (opp dir)) \<noteq> Null" by simp
  from single_rotation_some [OF this] obtain ch where
    1: "single_rotation (child n (opp dir)) (opp dir) = Some ch"
    and ch: "ch \<noteq> Null" "child ch (opp dir) \<noteq> Null" by auto
  from nn ch have "child (set_child n (opp dir) ch) (opp dir) \<noteq> Null" by simp
  from single_rotation_some [OF this] obtain m where
    2: "single_rotation (set_child n (opp dir) ch) dir = Some m"
    and m: "m \<noteq> Null" "child m dir \<noteq> Null"
      "child m (opp dir) = child (child (set_child n (opp dir) ch) (opp dir)) (opp dir)"
    by auto
  from m(3) nn ch have "child m (opp dir) \<noteq> Null" by simp
  moreover from nn 1 2 have "double_rotation n dir = Some m"
    by (cases n) (auto simp: double_rotation.simps(2))
  ultimately show ?thesis using m by blast
qed

lemma recolor3_some:
  assumes "child m dir \<noteq> Null" and "child m (opp dir) \<noteq> Null"
  shows "\<exists>m'. recolor3 m c = Some m' \<and> m' \<noteq> Null"
proof (cases m)
  case Null
  with assms show ?thesis by simp
next
  case (Node a k v p l r c')
  with assms show ?thesis by (cases dir; cases l; cases r) auto
qed

lemma remove_rebalance_total:
  assumes "n \<noteq> Null"
  shows "\<exists>n' d. remove_rebalance n dir = Some (n', d) \<and> n' \<noteq> Null"
proof -
  from assms obtain a k v p l r c where n: "n = Node a k v p l r c" by (cases n) auto
  have "\<exists>root1. (if is_red (child n (opp dir)) then single_rotation n dir else Some n)
           = Some root1 \<and> root1 \<noteq> Null"
  proof (cases "is_red (child n (opp dir))")
    case True
    then have "child n (opp dir) \<noteq> Null" by auto
    from single_rotation_some [OF this] True show ?thesis by auto
  next
    case False
    with assms show ?thesis by simp
  qed
  then obtain root1 where
    r1: "(if is_red (child n (opp dir)) then single_rotation n dir else Some n) = Some root1"
    and nn: "root1 \<noteq> Null" by blast
  show ?thesis
  proof (cases "child root1 (opp dir)")
    case Null
    with r1 nn n show ?thesis by (auto simp: remove_rebalance.simps)
  next
    case s: (Node sa sk sv sp sl sr sc)
    show ?thesis
    proof (cases "\<not> is_red sl \<and> \<not> is_red sr")
      case True
      with r1 nn n s show ?thesis by (auto simp: remove_rebalance.simps)
    next
      case False
      have "\<exists>root2. (if is_red (child (Node sa sk sv sp sl sr sc) (opp dir))
            then single_rotation root1 dir else double_rotation root1 dir) = Some root2
          \<and> child root2 dir \<noteq> Null \<and> child root2 (opp dir) \<noteq> Null"
      proof (cases "is_red (child (Node sa sk sv sp sl sr sc) (opp dir))")
        case True
        then have c: "child (child root1 (opp dir)) (opp dir) \<noteq> Null" using s by auto
        from s have "child root1 (opp dir) \<noteq> Null" by simp
        from single_rotation_some [OF this] c True show ?thesis by auto
      next
        case nr: False
        with False have "is_red (child (Node sa sk sv sp sl sr sc) dir)"
          by (cases dir) auto
        then have c: "child (child root1 (opp dir)) dir \<noteq> Null" using s by auto
        from s have "child root1 (opp dir) \<noteq> Null" by simp
        from double_rotation_some [OF this c] nr show ?thesis by auto
      qed
      then obtain root2 where
        r2: "(if is_red (child (Node sa sk sv sp sl sr sc) (opp dir))
            then single_rotation root1 dir else double_rotation root1 dir) = Some root2"
        and c2: "child root2 dir \<noteq> Null" "child root2 (opp dir) \<noteq> Null" by blast
      from recolor3_some [OF c2] obtain n' where
        r3: "recolor3 root2 (if is_red root1 then Red else Black) = Some n'"
        and n': "n' \<noteq> Null" by blast
      from r1 r2 r3 False s n have "remove_rebalance n dir = Some (n', True)"
        by (auto simp: remove_rebalance.simps Let_def)
      with n' show ?thesis by blast
    qed
  qed
qed

lemma find_max_Node: "find_max n = Some m \<Longrightarrow> (m = Null) = (n = Null)"
  by (induction n arbitrary: m rule: find_max.induct) (auto split: if_splits)

lemma find_max_total: "parents_ok n q \<Longrightarrow> \<exists>m. find_max n = Some m"
  by (induction n arbitrary: q rule: find_max.induct) auto

lemma unlink_total: "parents_ok ch (Some a) \<Longrightarrow> \<exists>n d'. unlink a p c ch d = Some (n, d')"
  by (cases ch) fastforce+

lemma try_remove_total:
  fixes n :: "('k::linorder, 'v) node"
  shows "parents_ok n q \<Longrightarrow>
    \<exists>n' d' sz' res. try_remove_key n d key sz = Some (n', d', sz', res)"
proof (induction n arbitrary: q d key)
  case Null
  show ?case by (intro exI [of _ Null] exI [of _ True] exI [of _ sz] exI [of _ None]) simp
next
  case (Node a k v p l r c)
  from Node.prems have pl: "parents_ok l (Some a)" and pr: "parents_ok r (Some a)" by auto
  have fixup: "\<exists>n' d'. (if \<not> d1 then remove_rebalance (Node a k' v' p l' r' c) dir
                 else Some (Node a k' v' p l' r' c, d1)) = Some (n', d')"
    for d1 and k' :: 'k and v' :: 'v and l' r' dir
    using remove_rebalance_total [of "Node a k' v' p l' r' c" dir] by auto
  show ?case
  proof (cases "k = key")
    case True
    show ?thesis
    proof (cases "l = Null \<or> r = Null")
      case lr: True
      from pl pr have "parents_ok (if l = Null then r else l) (Some a)" by simp
      from unlink_total [OF this, of p c d] True lr show ?thesis by auto
    next
      case lr: False
      from find_max_total [OF pl] obtain m where m: "find_max l = Some m" by blast
      with find_max_Node [OF m] lr obtain sa sk sv sp sl sr sc where
        fm: "find_max l = Some (Node sa sk sv sp sl sr sc)" by (cases m) auto
      from Node.IH(1) [OF pl, of d sk] obtain l' d1 sz1 res1 where
        rec: "try_remove_key l d sk sz = Some (l', d1, sz1, res1)" by blast
      from fixup [of d1 sk sv l' r DIR_LEFT] True lr fm rec show ?thesis
        by (auto simp: Let_def split: option.splits if_splits)
    qed
  next
    case False
    show ?thesis
    proof (cases "k < key")
      case True
      from Node.IH(2) [OF pr, of d key] obtain r' d1 sz1 res1 where
        rec: "try_remove_key r d key sz = Some (r', d1, sz1, res1)" by blast
      from fixup [of d1 k v l r' DIR_RIGHT] True False rec show ?thesis
        by (auto simp: Let_def split: option.splits if_splits)
    next
      case nlt: False
      from Node.IH(1) [OF pl, of d key] obtain l' d1 sz1 res1 where
        rec: "try_remove_key l d key sz = Some (l', d1, sz1, res1)" by blast
      from fixup [of d1 k v l' r DIR_LEFT] nlt False rec show ?thesis
        by (auto simp: Let_def split: option.splits if_splits)
    qed
  qed
qed

subsection \<open>Search trees and their inorder sequence\<close>

lemma keys_inorder: "keys n = set (inorder_keys n)"
  by (induction n) (auto simp: inorder_keys_def)

lemma inorder_keys_Node [simp]:
  "inorder_keys (Node a k v p l r c) = inorder_keys l @ k # inorder_keys r"
  by (simp add: inorder_keys_def)

lemma inorder_keys_Null [simp]: "inorder_keys Null = []"
  by (simp add: inorder_keys_def)

lemma bst_order_sorted: "bst_order n = sorted_wrt (<) (inorder_keys n)"
  by (induction n) (auto simp: sorted_wrt_append keys_inorder intro: less_trans)

lemma find_absent: "key \<notin> keys n \<Longrightarrow> try_find_key n key = None"
  by (induction n) auto

lemma find_present: "bst_order n \<Longrightarrow> try_find_key n key = Some x \<Longrightarrow> key \<in> keys n"
  by (induction n) (auto split: if_splits)

lemma entries_Node [simp]:
  "entries (Node a k v p l r c) = entries l @ (k, v) # entries r"
  by (simp add: entries_def)

lemma entries_Null [simp]: "entries Null = []"
  by (simp add: entries_def)

lemma fst_entries: "map fst (entries n) = inorder_keys n"
  by (simp add: entries_def inorder_keys_def case_prod_beta comp_def)

lemma map_of_absent: "key \<notin> keys n \<Longrightarrow> map_of (entries n) key = None"
  using fst_entries [of n] by (simp add: map_of_eq_None_iff keys_inorder flip: set_map)

lemma find_map_of: "bst_order n \<Longrightarrow> try_find_key n key = map_of (entries n) key"
proof (induction n)
  case Null
  then show ?case by simp
next
  case (Node a k v p l r c)
  then have l: "\<forall>x \<in> keys l. x < k" and r: "\<forall>x \<in> keys r. k < x"
    and IH: "try_find_key l key = map_of (entries l) key"
      "try_find_key r key = map_of (entries r) key"
    by auto
  show ?case
  proof (cases "key < k")
    case True
    with r have "key \<notin> keys r" by auto
    from map_of_absent [OF this] True IH show ?thesis
      by (auto simp: map_add_def split: option.splits)
  next
    case False
    with l have "key \<notin> keys l" by auto
    from map_of_absent [OF this] False IH show ?thesis
      by (auto simp: map_add_def split: option.splits)
  qed
qed

lemma inorder_transfer:
  assumes "inorder n' = inorder m" and "bst_order m"
  shows "bst_order n'" and "keys n' = keys m" and "try_find_key n' x = try_find_key m x"
proof -
  from assms(1) have k: "inorder_keys n' = inorder_keys m" and e: "entries n' = entries m"
    by (simp_all add: inorder_keys_def entries_def)
  from k assms(2) show b: "bst_order n'" by (simp add: bst_order_sorted)
  from k show "keys n' = keys m" by (simp add: keys_inorder)
  from b assms(2) e show "try_find_key n' x = try_find_key m x" by (simp add: find_map_of)
qed

subsection \<open>Insertion into a search tree\<close>

lemma try_insert_bst:
  "try_insert_key_val fresh par n key val allow sz = Some (n', sz', res) \<Longrightarrow> bst_order n \<Longrightarrow>
     bst_order n' \<and> keys n' = insert key (keys n)
     \<and> (\<forall>x. try_find_key n' x
            = (if x = key \<and> res \<noteq> Failed then Some val else try_find_key n x))"
proof (induction n arbitrary: par n' sz' res)
  case Null
  then show ?case by auto
next
  case (Node a k v p l r c)
  from Node.prems(2) have bl: "bst_order l" and br: "bst_order r"
    and l: "\<forall>x \<in> keys l. x < k" and r: "\<forall>x \<in> keys r. k < x" by auto
  show ?case
  proof (cases "key < k")
    case True
    with Node.prems(1) obtain l' where
      rec: "try_insert_key_val fresh (Some a) l key val allow sz = Some (l', sz', res)"
      and fin: "(if res = Inserted then insert_rebalance (Node a k v p l' r c) DIR_LEFT
                 else Some (Node a k v p l' r c)) = Some n'"
      by (auto split: option.splits if_splits)
    let ?m = "Node a k v p l' r c"
    from Node.IH(1) [OF rec bl] have IH: "bst_order l'" "keys l' = insert key (keys l)"
      "\<And>x. try_find_key l' x
            = (if x = key \<and> res \<noteq> Failed then Some val else try_find_key l x)" by auto
    from IH(1,2) True l r br have bm: "bst_order ?m" by auto
    from IH(2) have km: "keys ?m = insert key (keys (Node a k v p l r c))" by auto
    from IH(3) True have fm: "try_find_key ?m x
        = (if x = key \<and> res \<noteq> Failed then Some val else try_find_key (Node a k v p l r c) x)"
      for x by auto
    from fin have "inorder n' = inorder ?m"
      by (auto split: if_splits dest: inorder_insert_rebalance)
    from inorder_transfer [OF this bm] km fm show ?thesis by simp
  next
    case False
    show ?thesis
    proof (cases "k < key")
      case True
      with False Node.prems(1) obtain r' where
        rec: "try_insert_key_val fresh (Some a) r key val allow sz = Some (r', sz', res)"
        and fin: "(if res = Inserted then insert_rebalance (Node a k v p l r' c) DIR_RIGHT
                   else Some (Node a k v p l r' c)) = Some n'"
        by (auto split: option.splits if_splits)
      let ?m = "Node a k v p l r' c"
      from Node.IH(2) [OF rec br] have IH: "bst_order r'" "keys r' = insert key (keys r)"
        "\<And>x. try_find_key r' x
              = (if x = key \<and> res \<noteq> Failed then Some val else try_find_key r x)" by auto
      from IH(1,2) True l r bl have bm: "bst_order ?m" by auto
      from IH(2) have km: "keys ?m = insert key (keys (Node a k v p l r c))" by auto
      from IH(3) True False have fm: "try_find_key ?m x
          = (if x = key \<and> res \<noteq> Failed then Some val else try_find_key (Node a k v p l r c) x)"
        for x by auto
      from fin have "inorder n' = inorder ?m"
        by (auto split: if_splits dest: inorder_insert_rebalance)
      from inorder_transfer [OF this bm] km fm show ?thesis by simp
    next
      case kk: False
      with False have "key = k" by simp
      with Node.prems show ?thesis by (auto split: if_splits)
    qed
  qed
qed

subsection \<open>The maximum of a subtree\<close>

lemma find_max_last:
  "find_max n = Some (Node sa sk sv sp sl sr sc) \<Longrightarrow>
     sr = Null \<and> (\<exists>xs. inorder n = xs @ [(sa, sk, sv)])"
proof (induction n rule: find_max.induct)
  case 1
  then show ?case by simp
next
  case (2 a k v p l c)
  then show ?case by auto
next
  case (3 a k v p l ra rk rv rp rl rr rc c)
  then obtain xs where "sr = Null" "inorder (Node ra rk rv rp rl rr rc) = xs @ [(sa, sk, sv)]"
    by (auto split: if_splits)
  then show ?case by (auto intro: exI [of _ "inorder l @ (a, k, v) # xs"])
qed

lemma bst_last:
  assumes "bst_order n" and "inorder n = xs @ [(sa, sk, sv)]"
  shows "sk \<in> keys n" and "\<forall>x \<in> keys n. x \<le> sk" and "try_find_key n sk = Some sv"
    and "\<forall>x \<in> keys n - {sk}. x < sk"
proof -
  from assms(2) have ik: "inorder_keys n = map (\<lambda>(a, k, v). k) xs @ [sk]"
    by (simp add: inorder_keys_def)
  from assms(2) have en: "entries n = map snd xs @ [(sk, sv)]"
    by (simp add: entries_def)
  from ik show "sk \<in> keys n" by (simp add: keys_inorder)
  from assms(1) ik have lt: "\<forall>x \<in> set (map (\<lambda>(a, k, v). k) xs). x < sk"
    by (simp add: bst_order_sorted sorted_wrt_append)
  with ik show "\<forall>x \<in> keys n. x \<le> sk" by (auto simp: keys_inorder)
  from lt ik show "\<forall>x \<in> keys n - {sk}. x < sk" by (auto simp: keys_inorder)
  from lt have "sk \<notin> fst ` set (map snd xs)" by (auto simp: image_iff) 
  then have "map_of (map snd xs) sk = None" by (simp add: map_of_eq_None_iff)
  with en assms(1) show "try_find_key n sk = Some sv"
    by (simp add: find_map_of map_add_def)
qed

subsection \<open>Removal from a search tree\<close>

lemma try_remove_bst:
  "try_remove_key n d key sz = Some (n', d', sz', res) \<Longrightarrow> bst_order n \<Longrightarrow>
     bst_order n' \<and> keys n' = keys n - {key}
     \<and> (\<forall>x. try_find_key n' x = (if x = key then None else try_find_key n x))
     \<and> res = try_find_key n key
     \<and> sz' = (if res = None then sz else sz - 1)"
proof (induction n arbitrary: d key sz n' d' sz' res)
  case Null
  then show ?case by auto
next
  case (Node a k v p l r c)
  from Node.prems(2) have bl: "bst_order l" and br: "bst_order r"
    and l: "\<forall>x \<in> keys l. x < k" and r: "\<forall>x \<in> keys r. k < x" by auto
  from l have kl: "k \<notin> keys l" by auto
  from r have kr: "k \<notin> keys r" by auto
  let ?n = "Node a k v p l r c"
  have fn: "try_find_key ?n x = (if x < k then try_find_key l x
            else if k < x then try_find_key r x else Some v)" for x by simp
  from Node.prems(1) show ?case
  proof (cases rule: try_remove_key_elim)
    case unlink
    let ?ch = "if l = Null then r else l"
    from bl br have bch: "bst_order ?ch" by simp
    from inorder_unlink [OF unlink(3)] have io: "inorder n' = inorder ?ch" .
    note tr = inorder_transfer [OF io bch]
    from unlink(2) kl kr have kch: "keys ?ch = keys ?n - {k}" by auto
    have fch: "try_find_key ?ch x = (if x = k then None else try_find_key ?n x)" for x
    proof (cases "x = k")
      case True
      with kl kr show ?thesis by (simp add: find_absent)
    next
      case False
      show ?thesis
      proof (cases "l = Null")
        case True
        from r have "x < k \<Longrightarrow> x \<notin> keys r" by auto
        with True False show ?thesis by (auto simp: find_absent)
      next
        case nl: False
        with unlink(2) have rn: "r = Null" by simp
        from l have "k < x \<Longrightarrow> x \<notin> keys l" by auto
        with nl rn False show ?thesis by (auto simp: find_absent)
      qed
    qed
    from tr kch fch unlink(1,4,5) show ?thesis by simp
  next
    case (two_children sa sk sv sp sl sr sc l' d1 res1)
    from find_max_last [OF two_children(4)] obtain xs where
      last: "inorder l = xs @ [(sa, sk, sv)]" by blast
    note mx = bst_last [OF bl last]
    from Node.IH(1) [OF two_children(5) bl] mx(3)
    have IH: "bst_order l'" "keys l' = keys l - {sk}"
      "\<And>x. try_find_key l' x = (if x = sk then None else try_find_key l x)"
      "sz' = sz - 1" by auto
    let ?m = "Node a sk sv p l' r c"
    from mx(1) l have skk: "sk < k" by auto
    from IH(1,2) mx(4) r skk br have bm: "bst_order ?m" by auto
    from IH(2) mx(1) kl kr have km: "keys ?m = keys ?n - {k}" by auto
    have fm: "try_find_key ?m x = (if x = k then None else try_find_key ?n x)" for x
    proof -
      consider "x < sk" | "x = sk" | "sk < x" "x < k" | "x = k" | "k < x"
        using skk by force
      then show ?thesis
      proof cases
        case 1
        with skk IH(3) show ?thesis by auto
      next
        case 2
        with skk mx(3) show ?thesis by auto
      next
        case 3
        from 3 mx(2) have xl: "x \<notin> keys l" by auto
        from 3 r have xr: "x \<notin> keys r" by auto
        from 3 xl xr show ?thesis by (auto simp: find_absent)
      next
        case 4
        with skk kr show ?thesis by (auto simp: find_absent)
      next
        case 5
        with skk show ?thesis by auto
      qed
    qed
    from two_children(6) have "inorder n' = inorder ?m"
      by (auto split: if_splits dest: inorder_remove_rebalance)
    from inorder_transfer [OF this bm] km fm two_children(1,7) IH(4) show ?thesis by simp
  next
    case (right r' d1)
    from Node.IH(2) [OF right(3) br]
    have IH: "bst_order r'" "keys r' = keys r - {key}"
      "\<And>x. try_find_key r' x = (if x = key then None else try_find_key r x)"
      "res = try_find_key r key" "sz' = (if res = None then sz else sz - 1)" by auto
    let ?m = "Node a k v p l r' c"
    from IH(1,2) l r bl have bm: "bst_order ?m" by auto
    from right(2) l have "key \<notin> keys l" by auto
    with IH(2) right(1) have km: "keys ?m = keys ?n - {key}" by auto
    from IH(3) right(2) have fm:
      "try_find_key ?m x = (if x = key then None else try_find_key ?n x)" for x by auto
    from right(4) have "inorder n' = inorder ?m"
      by (auto split: if_splits dest: inorder_remove_rebalance)
    from inorder_transfer [OF this bm] km fm IH(4,5) right(2) show ?thesis by auto
  next
    case (left l' d1)
    from left(1,2) have lt: "key < k" by auto
    from Node.IH(1) [OF left(3) bl]
    have IH: "bst_order l'" "keys l' = keys l - {key}"
      "\<And>x. try_find_key l' x = (if x = key then None else try_find_key l x)"
      "res = try_find_key l key" "sz' = (if res = None then sz else sz - 1)" by auto
    let ?m = "Node a k v p l' r c"
    from IH(1,2) l r br have bm: "bst_order ?m" by auto
    from lt r have "key \<notin> keys r" by auto
    with IH(2) left(1) have km: "keys ?m = keys ?n - {key}" by auto
    from IH(3) lt have fm:
      "try_find_key ?m x = (if x = key then None else try_find_key ?n x)" for x by auto
    from left(4) have "inorder n' = inorder ?m"
      by (auto split: if_splits dest: inorder_remove_rebalance)
    from inorder_transfer [OF this bm] km fm IH(4,5) lt show ?thesis by auto
  qed
qed

subsection \<open>The public calls on a search tree with matching parent links\<close>

lemma keys_set_color [simp]: "keys (set_color n c) = keys n"
  by (cases n) auto

lemma bst_order_set_color [simp]: "bst_order (set_color n c) = bst_order n"
  by (cases n) auto

lemma find_set_color [simp]: "try_find_key (set_color n c) key = try_find_key n key"
  by (cases n) auto

lemma finish_insert_eq:
  "n \<noteq> Null \<Longrightarrow>
     finish_insert (n, sz, res)
       = Some (\<lparr>m_root = (if res = Inserted then set_color n Black else n), m_size = sz\<rparr>, res)"
  by (cases n) auto

lemma insert_call:
  assumes "bst_order (m_root t)" and "parents_ok (m_root t) None"
  shows "\<exists>n sz res.
     try_insert_key_val fresh None (m_root t) key val allow (m_size t) = Some (n, sz, res)
     \<and> Option.bind (try_insert_key_val fresh None (m_root t) key val allow (m_size t))
          finish_insert
        = Some (\<lparr>m_root = (if res = Inserted then set_color n Black else n), m_size = sz\<rparr>, res)
     \<and> bst_order n \<and> parents_ok n None \<and> keys n = insert key (keys (m_root t))
     \<and> (\<forall>x. try_find_key n x
            = (if x = key \<and> res \<noteq> Failed then Some val else try_find_key (m_root t) x))"
proof -
  from try_insert_total [OF assms(2)] obtain n sz res where
    ins: "try_insert_key_val fresh None (m_root t) key val allow (m_size t) = Some (n, sz, res)"
    by blast
  from try_insert_Node [OF ins] have "n \<noteq> Null" .
  from finish_insert_eq [OF this] ins
  have "Option.bind (try_insert_key_val fresh None (m_root t) key val allow (m_size t))
          finish_insert
        = Some (\<lparr>m_root = (if res = Inserted then set_color n Black else n), m_size = sz\<rparr>, res)"
    by simp
  with ins try_insert_bst [OF ins assms(1)] parents_ok_try_insert [OF ins assms(2)]
  show ?thesis by blast
qed

lemma remove_call:
  assumes "bst_order (m_root t)" and "parents_ok (m_root t) None"
  shows "\<exists>n d sz res.
     try_remove_key (m_root t) False key (m_size t) = Some (n, d, sz, res)
     \<and> remove_rb t key
        = Some (\<lparr>m_root = (if res \<noteq> None \<and> n \<noteq> Null then set_color n Black else n),
                 m_size = sz\<rparr>, res)
     \<and> bst_order n \<and> parents_ok n None \<and> keys n = keys (m_root t) - {key}
     \<and> (\<forall>x. try_find_key n x = (if x = key then None else try_find_key (m_root t) x))
     \<and> res = try_find_key (m_root t) key
     \<and> sz = (if res = None then m_size t else m_size t - 1)"
proof -
  from try_remove_total [OF assms(2)] obtain n d sz res where
    rm: "try_remove_key (m_root t) False key (m_size t) = Some (n, d, sz, res)"
    by blast
  then have "remove_rb t key
        = Some (\<lparr>m_root = (if res \<noteq> None \<and> n \<noteq> Null then set_color n Black else n),
                 m_size = sz\<rparr>, res)"
    by (simp add: remove_rb_def)
  with rm try_remove_bst [OF rm assms(1)] parents_ok_try_remove [OF rm assms(2)]
  show ?thesis by blast
qed

subsection \<open>Removal of the maximum\<close>

lemma inorder_Nil [simp]: "(inorder n = []) = (n = Null)"
  by (cases n) auto

lemma try_remove_max:
  "bst_order n \<Longrightarrow> inorder n = xs @ [(sa, sk, sv)] \<Longrightarrow>
   try_remove_key n d sk sz = Some (n', d', sz', res) \<Longrightarrow> inorder n' = xs"
proof (induction n arbitrary: xs d n' d' sz' res)
  case Null
  then show ?case by simp
next
  case (Node a k v p l r c)
  from Node.prems(1) have bl: "bst_order l" and br: "bst_order r"
    and l: "\<forall>x \<in> keys l. x < k" and r: "\<forall>x \<in> keys r. k < x" by auto
  show ?case
  proof (cases "r = Null")
    case True
    with Node.prems(2) have eq: "xs = inorder l" "a = sa" "k = sk" "v = sv" by auto
    from Node.prems(3) show ?thesis
    proof (cases rule: try_remove_key_elim)
      case unlink
      from inorder_unlink [OF unlink(3)] True eq show ?thesis by auto
    next
      case (two_children sa sk sv sp sl sr sc l' d1 res1)
      with True show ?thesis by simp
    next
      case (right r' d1)
      with eq show ?thesis by simp
    next
      case (left l' d1)
      with eq show ?thesis by simp
    qed
  next
    case False
    then have "inorder r \<noteq> []" by simp
    then obtain ys where ys: "inorder r = ys @ [last (inorder r)]"
      by (metis append_butlast_last_id)
    then have "inorder (Node a k v p l r c) = (inorder l @ (a, k, v) # ys) @ [last (inorder r)]"
      by simp
    with Node.prems(2) have "xs @ [(sa, sk, sv)] = (inorder l @ (a, k, v) # ys) @ [last (inorder r)]"
      by simp
    then have eq: "xs = inorder l @ (a, k, v) # ys" and "last (inorder r) = (sa, sk, sv)"
      by simp_all
    with ys have last: "inorder r = ys @ [(sa, sk, sv)]" by simp
    from bst_last(1) [OF br last] r have ksk: "k < sk" by auto
    from Node.prems(3) show ?thesis
    proof (cases rule: try_remove_key_elim)
      case unlink
      with ksk show ?thesis by simp
    next
      case (two_children sa sk sv sp sl sr sc l' d1 res1)
      with ksk show ?thesis by simp
    next
      case (right r' d1)
      from Node.IH(2) [OF br last right(3)] have "inorder r' = ys" .
      moreover from right(4) have "inorder n' = inorder (Node a k v p l r' c)"
        by (auto split: if_splits dest: inorder_remove_rebalance)
      ultimately show ?thesis using eq by simp
    next
      case (left l' d1)
      with ksk show ?thesis by simp
    qed
  qed
qed

lemma find_node_key:
  "find_node n key = Node a k v p l r c \<Longrightarrow> k = key \<and> try_find_key n key = Some v"
  by (induction n) (auto split: if_splits)

lemma find_node_bst: "bst_order n \<Longrightarrow> bst_order (find_node n key)"
  by (induction n) auto

lemma find_node_parents:
  "parents_ok n q \<Longrightarrow> \<exists>q'. parents_ok (find_node n key) q'"
  by (induction n arbitrary: q) auto

lemma try_remove_inorder:
  "bst_order n \<Longrightarrow> find_node n key = Node a k v p l r c \<Longrightarrow>
   try_remove_key n d key sz = Some (n', d', sz', res) \<Longrightarrow>
     \<exists>pre post. inorder n = pre @ inorder (Node a k v p l r c) @ post
       \<and> (l = Null \<or> r = Null \<longrightarrow> inorder n' = pre @ inorder l @ inorder r @ post)
       \<and> (l \<noteq> Null \<and> r \<noteq> Null \<longrightarrow>
            (\<exists>xs sa sk sv. inorder l = xs @ [(sa, sk, sv)]
               \<and> inorder n' = pre @ xs @ (a, sk, sv) # inorder r @ post))"
proof (induction n arbitrary: d n' d' sz' res)
  case Null
  then show ?case by simp
next
  case (Node a0 k0 v0 p0 l0 r0 c0)
  from Node.prems(1) have bl: "bst_order l0" and br: "bst_order r0" by auto
  let ?goal = "\<lambda>n n' pre post. inorder n = pre @ inorder (Node a k v p l r c) @ post
       \<and> (l = Null \<or> r = Null \<longrightarrow> inorder n' = pre @ inorder l @ inorder r @ post)
       \<and> (l \<noteq> Null \<and> r \<noteq> Null \<longrightarrow>
            (\<exists>xs sa sk sv. inorder l = xs @ [(sa, sk, sv)]
               \<and> inorder n' = pre @ xs @ (a, sk, sv) # inorder r @ post))"
  show ?case
  proof (cases "key < k0")
    case True
    with Node.prems(2) have fn: "find_node l0 key = Node a k v p l r c" by simp
    from Node.prems(3) show ?thesis
    proof (cases rule: try_remove_key_elim)
      case (left l' d1)
      from Node.IH(1) [OF bl fn left(3)] obtain pre post where g: "?goal l0 l' pre post"
        by blast
      from left(4) have "inorder n' = inorder l' @ (a0, k0, v0) # inorder r0"
        by (auto split: if_splits dest: inorder_remove_rebalance)
      with g have "?goal (Node a0 k0 v0 p0 l0 r0 c0) n' pre (post @ (a0, k0, v0) # inorder r0)"
        by auto
      then show ?thesis by blast
    qed (use True in auto)
  next
    case False
    show ?thesis
    proof (cases "k0 < key")
      case True
      with False Node.prems(2) have fn: "find_node r0 key = Node a k v p l r c" by simp
      from Node.prems(3) show ?thesis
      proof (cases rule: try_remove_key_elim)
        case (right r' d1)
        from Node.IH(2) [OF br fn right(3)] obtain pre post where g: "?goal r0 r' pre post"
          by blast
        from right(4) have "inorder n' = inorder l0 @ (a0, k0, v0) # inorder r'"
          by (auto split: if_splits dest: inorder_remove_rebalance)
        with g have "?goal (Node a0 k0 v0 p0 l0 r0 c0) n' (inorder l0 @ (a0, k0, v0) # pre) post"
          by auto
        then show ?thesis by blast
      qed (use True in auto)
    next
      case nlt: False
      with False Node.prems(2) have eq: "a0 = a" "k0 = k" "v0 = v" "p0 = p" "l0 = l" "r0 = r"
        "c0 = c" "k = key" by auto
      from Node.prems(3) show ?thesis
      proof (cases rule: try_remove_key_elim)
        case unlink
        from inorder_unlink [OF unlink(3)] unlink(2) eq
        have "inorder n' = inorder l @ inorder r" by auto
        with unlink(2) eq have "?goal (Node a0 k0 v0 p0 l0 r0 c0) n' [] []" by auto
        then show ?thesis by blast
      next
        case (two_children sa sk sv sp sl sr sc l' d1 res1)
        from find_max_last [OF two_children(4)] obtain xs where
          last: "inorder l0 = xs @ [(sa, sk, sv)]" by blast
        from try_remove_max [OF bl last two_children(5)] have "inorder l' = xs" .
        moreover from two_children(6)
        have "inorder n' = inorder l' @ (a0, sk, sv) # inorder r0"
          by (auto split: if_splits dest: inorder_remove_rebalance)
        ultimately have "?goal (Node a0 k0 v0 p0 l0 r0 c0) n' [] []"
          using two_children(2,3) last eq by auto
        then show ?thesis by blast
      qed (use eq in auto)
    qed
  qed
qed

lemma max_of_left_subtree:
  assumes "bst_order l" and "parents_ok l q" and "l \<noteq> Null"
  shows "\<exists>sa sk sv sp sl sc xs.
      find_max l = Some (Node sa sk sv sp sl Null sc)
    \<and> inorder l = xs @ [(sa, sk, sv)] \<and> (\<forall>x \<in> keys l. x \<le> sk)"
proof -
  from find_max_total [OF assms(2)] obtain m where m: "find_max l = Some m" by blast
  with find_max_Node [OF m] assms(3) obtain sa sk sv sp sl sr sc where
    fm0: "find_max l = Some (Node sa sk sv sp sl sr sc)" by (cases m) auto
  from find_max_last [OF fm0] obtain xs where
    sr: "sr = Null" and last: "inorder l = xs @ [(sa, sk, sv)]" by blast
  from fm0 sr last bst_last(2) [OF assms(1) last] show ?thesis by blast
qed

lemma remove_two_children_node:
  assumes "bst_order (Node a k v p l r c)" and "parents_ok (Node a k v p l r c) q"
    and "l \<noteq> Null" and "r \<noteq> Null"
    and fm: "find_max l = Some (Node sa sk sv sp sl sr sc)"
    and last: "inorder l = xs @ [(sa, sk, sv)]"
  shows "\<exists>l' d1 res1.
      try_remove_key l is_done sk sz = Some (l', d1, sz - 1, res1)
    \<and> inorder l' = xs
    \<and> try_remove_key (Node a k v p l r c) is_done k sz
        = (if d1 then Some (Node a sk sv p l' r c, True, sz - 1, Some v)
           else map_option (\<lambda>(n, d). (n, d, sz - 1, Some v))
                  (remove_rebalance (Node a sk sv p l' r c) DIR_LEFT))"
proof -
  from assms(1) have bl: "bst_order l" by simp
  from assms(2) have pl: "parents_ok l (Some a)" by simp
  note mx = bst_last [OF bl last]
  from try_remove_total [OF pl, of is_done sk sz] obtain l' d1 sz1 res1 where
    rec: "try_remove_key l is_done sk sz = Some (l', d1, sz1, res1)" by blast
  from try_remove_bst [OF rec bl] mx(3) have sz1: "sz1 = sz - 1" by auto
  from try_remove_max [OF bl last rec] have io: "inorder l' = xs" .
  let ?m = "Node a sk sv p l' r c"
  have call: "try_remove_key (Node a k v p l r c) is_done k sz
        = (if d1 then Some (?m, True, sz - 1, Some v)
           else map_option (\<lambda>(n, d). (n, d, sz - 1, Some v)) (remove_rebalance ?m DIR_LEFT))"
    using assms(3,4) fm rec sz1
    by (auto simp: Let_def split: option.splits)
  with rec sz1 io show ?thesis by blast
qed

subsection \<open>Every call returns and keeps the search-tree order and the parent links\<close>

lemma apply_op_preserves:
  assumes "bst_order (m_root t)" and "parents_ok (m_root t) None"
  shows "\<exists>t'. apply_op t x = Some t' \<and> bst_order (m_root t') \<and> parents_ok (m_root t') None"
proof (cases x)
  case (Insert fresh key val)
  from insert_call [OF assms, of fresh key val False] show ?thesis
    unfolding Insert by (auto simp: insert_rb_def)
next
  case (Insert_or_update fresh key val)
  from insert_call [OF assms, of fresh key val True] show ?thesis
    unfolding Insert_or_update by (auto simp: insert_or_update_def)
next
  case (Remove key)
  from remove_call [OF assms, of key] show ?thesis
    unfolding Remove by auto
qed

lemma apply_ops_preserves:
  "bst_order (m_root t) \<Longrightarrow> parents_ok (m_root t) None \<Longrightarrow>
     \<exists>t'. apply_ops t ops = Some t' \<and> bst_order (m_root t') \<and> parents_ok (m_root t') None"
proof (induction ops arbitrary: t)
  case Nil
  then show ?case by simp
next
  case (Cons x ops)
  from apply_op_preserves [OF Cons.prems, of x] obtain t1 where
    1: "apply_op t x = Some t1" "bst_order (m_root t1)" "parents_ok (m_root t1) None" by blast
  from Cons.IH [OF 1(2,3)] 1(1) show ?case by simp
qed

subsection \<open>Traversal\<close>

lemma visit_list_append:
  "visit_list f (xs @ ys) s
     = (case visit_list f xs s of (False, s') \<Rightarrow> (False, s') | (True, s') \<Rightarrow> visit_list f ys s')"
  by (induction xs arbitrary: s) (auto split: prod.splits bool.splits)

lemma visit_inorder_list: "visit_inorder n f s = visit_list f (entries n) s"
  by (induction n arbitrary: s) (auto simp: visit_list_append split: prod.splits bool.splits)

lemma visit_list_recording:
  "visit_list (recording P) xs visited
     = (list_all (\<lambda>(k, v). P k v) xs,
        visited @ takeWhile (\<lambda>(k, v). P k v) xs @ take 1 (dropWhile (\<lambda>(k, v). P k v) xs))"
  by (induction xs arbitrary: visited) (auto simp: recording_def)

subsection \<open>Successor and predecessor in a sequence\<close>

lemma dropWhile_neq:
  "x \<notin> set pre \<Longrightarrow> dropWhile (\<lambda>y. y \<noteq> x) (pre @ ys) = dropWhile (\<lambda>y. y \<noteq> x) ys"
  by (induction pre) auto

lemma takeWhile_neq:
  "x \<notin> set pre \<Longrightarrow> takeWhile (\<lambda>y. y \<noteq> x) (pre @ x # post) = pre"
  by (induction pre) auto

lemma next_in_split:
  "x \<notin> set pre \<Longrightarrow> next_in (pre @ x # post) x = (case post of [] \<Rightarrow> None | z # zs \<Rightarrow> Some z)"
  by (simp add: next_in_def dropWhile_neq split: list.splits)

lemma prev_in_split:
  "x \<notin> set pre \<Longrightarrow> prev_in (pre @ x # post) x = (if pre = [] then None else Some (last pre))"
proof -
  assume "x \<notin> set pre"
  then have "prev_in (pre @ x # post) x = (case rev pre of [] \<Rightarrow> None | z # zs \<Rightarrow> Some z)"
    by (simp add: prev_in_def takeWhile_neq)
  also have "\<dots> = (if pre = [] then None else Some (last pre))"
    by (cases pre rule: rev_cases) simp_all
  finally show ?thesis .
qed

lemma next_in_left:
  assumes "distinct (xs @ ys)" and "x \<in> set xs" and "x \<noteq> last xs"
  shows "next_in (xs @ ys) x = next_in xs x"
proof -
  from assms(2) obtain pre post where xs: "xs = pre @ x # post" by (auto dest: split_list)
  with assms(1) have np: "x \<notin> set pre" by auto
  from xs assms(3) have "post \<noteq> []" by auto
  then obtain z zs where "post = z # zs" by (cases post) auto
  with xs np next_in_split [of x pre "post @ ys"] next_in_split [of x pre post]
  show ?thesis by simp
qed

lemma next_in_boundary:
  assumes "distinct (xs @ y # ys)" and "xs \<noteq> []"
  shows "next_in (xs @ y # ys) (last xs) = Some y"
proof -
  from assms(2) have xs: "xs = butlast xs @ [last xs]" by simp
  from assms(1) have "distinct xs" by simp
  with xs have "last xs \<notin> set (butlast xs)"
    by (metis distinct_append disjoint_iff list.set_intros(1))
  from next_in_split [OF this, of "y # ys"] xs show ?thesis
    by (metis append.assoc append_Cons append_Nil list.simps(5))
qed

lemma next_in_right: "x \<notin> set xs \<Longrightarrow> next_in (xs @ ys) x = next_in ys x"
  by (simp add: next_in_def dropWhile_neq)

lemma next_in_last: "distinct xs \<Longrightarrow> xs \<noteq> [] \<Longrightarrow> next_in xs (last xs) = None"
proof -
  assume d: "distinct xs" and ne: "xs \<noteq> []"
  then have xs: "xs = butlast xs @ [last xs]" by simp
  with d have "last xs \<notin> set (butlast xs)"
    by (metis distinct_append disjoint_iff list.set_intros(1))
  from next_in_split [OF this, of "[]"] xs show ?thesis by simp
qed

lemma prev_in_right:
  assumes "distinct (xs @ ys)" and "x \<in> set ys" and "x \<noteq> hd ys"
  shows "prev_in (xs @ ys) x = prev_in ys x"
proof -
  from assms(2) obtain pre post where ys: "ys = pre @ x # post" by (auto dest: split_list)
  with assms(1) have np: "x \<notin> set pre" "x \<notin> set xs" by auto
  from ys assms(3) have "pre \<noteq> []" by (cases pre) auto
  with ys np prev_in_split [of x "xs @ pre" post] prev_in_split [of x pre post]
  show ?thesis by simp
qed

lemma prev_in_boundary:
  assumes "distinct (xs @ y # ys)" and "ys \<noteq> []"
  shows "prev_in (xs @ y # ys) (hd ys) = Some y"
proof -
  from assms(2) obtain z zs where ys: "ys = z # zs" by (cases ys) auto
  with assms(1) have "z \<notin> set (xs @ [y])" by auto
  from prev_in_split [OF this, of zs] ys show ?thesis by simp
qed

lemma prev_in_left: "x \<in> set xs \<Longrightarrow> prev_in (xs @ ys) x = prev_in xs x"
  using takeWhile_append1 [of x xs "\<lambda>y. y \<noteq> x" ys] by (simp add: prev_in_def)

lemma prev_in_hd: "xs \<noteq> [] \<Longrightarrow> prev_in xs (hd xs) = None"
  by (cases xs) (simp_all add: prev_in_def)

lemma next_prev_inverse:
  assumes "distinct xs" and "x \<in> set xs"
  shows "(next_in xs x = None \<longrightarrow> x = last xs)
       \<and> (\<forall>y. next_in xs x = Some y \<longrightarrow> y \<in> set xs \<and> prev_in xs y = Some x)"
proof -
  from assms(2) obtain pre post where xs: "xs = pre @ x # post" by (auto dest: split_list)
  with assms(1) have np: "x \<notin> set pre" by auto
  show ?thesis
  proof (cases post)
    case Nil
    with xs np next_in_split [of x pre post] show ?thesis by simp
  next
    case (Cons z zs)
    with xs assms(1) have "z \<notin> set (pre @ [x])" by auto
    from prev_in_split [OF this, of zs] have "prev_in xs z = Some x"
      using xs Cons by simp
    with xs np Cons next_in_split [of x pre post] show ?thesis by simp
  qed
qed

subsection \<open>Following parent links\<close>

lemma addrs_Node [simp]: "addrs (Node a k v p l r c) = addrs l @ a # addrs r"
  by (simp add: addrs_def)

lemma addrs_Null [simp]: "addrs Null = []"
  by (simp add: addrs_def)

lemma addrs_Nil [simp]: "(addrs n = []) = (n = Null)"
  by (cases n) auto

lemma get_in_addrs: "get n = Some a \<Longrightarrow> a \<in> set (addrs n)"
  by (cases n) auto

lemma node_at_None: "x \<notin> set (addrs n) \<Longrightarrow> node_at n x = None"
  by (induction n) auto

lemma node_at_in: "x \<in> set (addrs n) \<Longrightarrow> node_at n x \<noteq> None"
  by (induction n) (auto split: option.splits)

lemma find_min_first:
  "parents_ok n q \<Longrightarrow> n \<noteq> Null \<Longrightarrow> map_option get (find_min n) = Some (Some (hd (addrs n)))"
  by (induction n arbitrary: q rule: find_min.induct) (auto simp: hd_append)

lemma find_max_last_addr:
  "parents_ok n q \<Longrightarrow> n \<noteq> Null \<Longrightarrow> map_option get (find_max n) = Some (Some (last (addrs n)))"
  by (induction n arbitrary: q rule: find_max.induct) auto

lemma ascend_step:
  assumes "node_at root x = Some (Node x k v (Some b) l r c)" and "node_at root b = Some m"
  shows "ascend root dir x
    = (if get (child m dir) = Some x then ascend root dir b else Some (Some b))"
  using assms by (subst ascend.simps) simp

lemma ascend_top:
  assumes "node_at root b = Some (Node b k v None l r c)"
  shows "ascend root dir b = Some None"
  using assms by (subst ascend.simps) simp

lemma embed_children:
  assumes "distinct (addrs (Node a k v p l r c))"
    and "\<forall>y \<in> set (addrs (Node a k v p l r c)). node_at root y = node_at (Node a k v p l r c) y"
  shows "node_at root a = Some (Node a k v p l r c)"
    and "\<forall>y \<in> set (addrs l). node_at root y = node_at l y"
    and "\<forall>y \<in> set (addrs r). node_at root y = node_at r y"
proof -
  from assms(2) show "node_at root a = Some (Node a k v p l r c)" by simp
  show "\<forall>y \<in> set (addrs l). node_at root y = node_at l y"
  proof
    fix y assume y: "y \<in> set (addrs l)"
    with assms(1) have "y \<noteq> a" by auto
    with y node_at_in [OF y] assms(2) show "node_at root y = node_at l y"
      by (auto split: option.splits)
  qed
  show "\<forall>y \<in> set (addrs r). node_at root y = node_at r y"
  proof
    fix y assume y: "y \<in> set (addrs r)"
    with assms(1) have "y \<noteq> a" "y \<notin> set (addrs l)" by auto
    with y node_at_None [of y l] assms(2) show "node_at root y = node_at r y"
      by (auto split: option.splits)
  qed
qed

lemma ascend_from_left_child:
  assumes "node_at root a = Some (Node a k v p l r c)"
    and "distinct (addrs (Node a k v p l r c))"
    and "parents_ok l (Some a)"
    and "\<forall>y \<in> set (addrs l). node_at root y = node_at l y"
    and "get l = Some la"
  shows "ascend root DIR_RIGHT la = Some (Some a)"
    and "ascend root DIR_LEFT la = ascend root DIR_LEFT a"
proof -
  from assms(5) obtain lk lv lp ll lr lc where l: "l = Node la lk lv lp ll lr lc"
    by (cases l) auto
  with assms(3) have lp: "lp = Some a" by simp
  from l assms(4) have at: "node_at root la = Some (Node la lk lv (Some a) ll lr lc)"
    by (simp add: lp)
  from l assms(2) have "la \<notin> set (addrs r)" by auto
  then have "get r \<noteq> Some la" by (auto dest: get_in_addrs)
  with ascend_step [OF at assms(1), of DIR_RIGHT]
  show "ascend root DIR_RIGHT la = Some (Some a)" by simp
  from ascend_step [OF at assms(1), of DIR_LEFT] l
  show "ascend root DIR_LEFT la = ascend root DIR_LEFT a" by simp
qed

lemma ascend_from_right_child:
  assumes "node_at root a = Some (Node a k v p l r c)"
    and "distinct (addrs (Node a k v p l r c))"
    and "parents_ok r (Some a)"
    and "\<forall>y \<in> set (addrs r). node_at root y = node_at r y"
    and "get r = Some ra"
  shows "ascend root DIR_LEFT ra = Some (Some a)"
    and "ascend root DIR_RIGHT ra = ascend root DIR_RIGHT a"
proof -
  from assms(5) obtain rk rv rp rl rr rc where r: "r = Node ra rk rv rp rl rr rc"
    by (cases r) auto
  with assms(3) have rp: "rp = Some a" by simp
  from r assms(4) have at: "node_at root ra = Some (Node ra rk rv (Some a) rl rr rc)"
    by (simp add: rp)
  from r assms(2) have "ra \<notin> set (addrs l)" by auto
  then have "get l \<noteq> Some ra" by (auto dest: get_in_addrs)
  with ascend_step [OF at assms(1), of DIR_LEFT]
  show "ascend root DIR_LEFT ra = Some (Some a)" by simp
  from ascend_step [OF at assms(1), of DIR_RIGHT] r
  show "ascend root DIR_RIGHT ra = ascend root DIR_RIGHT a" by simp
qed

lemma get_Some_ex: "n \<noteq> Null \<Longrightarrow> \<exists>a. get n = Some a"
  by (cases n) auto

lemma next_node_subtree:
  assumes "distinct (addrs m)" and "parents_ok m q"
    and "\<forall>y \<in> set (addrs m). node_at root y = node_at m y"
    and "x \<in> set (addrs m)" and "get m = Some b"
  shows "next_node root (Some x)
    = (if x = last (addrs m) then ascend root DIR_RIGHT b else Some (next_in (addrs m) x))"
  using assms
proof (induction m arbitrary: q b x)
  case Null
  then show ?case by simp
next
  case (Node a k v p l r c)
  let ?m = "Node a k v p l r c"
  from Node.prems(5) have b: "b = a" by simp
  from Node.prems(1) have d: "distinct (addrs l @ a # addrs r)" by simp
  then have dl: "distinct (addrs l)" and dr: "distinct (addrs r)" by auto
  from Node.prems(2) have pl: "parents_ok l (Some a)" and pr: "parents_ok r (Some a)" by auto
  note emb = embed_children [OF Node.prems(1,3)]
  have lastm: "last (addrs ?m) = (if r = Null then a else last (addrs r))" by simp
  consider (left) "x \<in> set (addrs l)" | (self) "x = a" | (right) "x \<in> set (addrs r)"
    using Node.prems(4) by auto
  then show ?case
  proof cases
    case left
    then have "l \<noteq> Null" by auto
    then obtain la where la: "get l = Some la" by (auto dest: get_Some_ex)
    note IH = Node.IH(1) [OF dl pl emb(2) left la]
    from left d have "x \<noteq> a" "x \<notin> set (addrs r)" by auto
    then have nl: "x \<noteq> last (addrs ?m)" by (auto simp: lastm)
    show ?thesis
    proof (cases "x = last (addrs l)")
      case True
      from ascend_from_left_child(1) [OF emb(1) Node.prems(1) pl emb(2) la]
      have "ascend root DIR_RIGHT la = Some (Some a)" .
      moreover from \<open>l \<noteq> Null\<close> have "next_in (addrs l @ a # addrs r) (last (addrs l)) = Some a"
        by (intro next_in_boundary [OF d]) simp
      ultimately show ?thesis using IH True nl by simp
    next
      case False
      from next_in_left [OF d left False] IH False nl show ?thesis by simp
    qed
  next
    case self
    show ?thesis
    proof (cases "r = Null")
      case True
      with self emb(1) b show ?thesis by (simp add: next_node_def)
    next
      case False
      from d have "a \<notin> set (addrs l)" by auto
      from next_in_split [OF this, of "addrs r"] False
      have "next_in (addrs ?m) a = Some (hd (addrs r))"
        by (cases "addrs r") auto
      moreover from False d have "a \<noteq> last (addrs ?m)" by (auto simp: lastm)
      moreover from find_min_first [OF pr False] self emb(1) False
      have "next_node root (Some x) = Some (Some (hd (addrs r)))" by (simp add: next_node_def)
      ultimately show ?thesis using self by simp
    qed
  next
    case right
    then have rn: "r \<noteq> Null" by auto
    then obtain ra where ra: "get r = Some ra" by (auto dest: get_Some_ex)
    note IH = Node.IH(2) [OF dr pr emb(3) right ra]
    from right d have nx: "x \<notin> set (addrs l @ [a])" by auto
    from next_in_right [OF nx, of "addrs r"] have ni: "next_in (addrs ?m) x = next_in (addrs r) x"
      by simp
    from ascend_from_right_child(2) [OF emb(1) Node.prems(1) pr emb(3) ra]
    have "ascend root DIR_RIGHT ra = ascend root DIR_RIGHT a" .
    with IH ni rn b show ?thesis by (simp add: lastm)
  qed
qed

lemma prev_node_subtree:
  assumes "distinct (addrs m)" and "parents_ok m q"
    and "\<forall>y \<in> set (addrs m). node_at root y = node_at m y"
    and "x \<in> set (addrs m)" and "get m = Some b"
  shows "prev_node root (Some x)
    = (if x = hd (addrs m) then ascend root DIR_LEFT b else Some (prev_in (addrs m) x))"
  using assms
proof (induction m arbitrary: q b x)
  case Null
  then show ?case by simp
next
  case (Node a k v p l r c)
  let ?m = "Node a k v p l r c"
  from Node.prems(5) have b: "b = a" by simp
  from Node.prems(1) have d: "distinct (addrs l @ a # addrs r)" by simp
  then have dl: "distinct (addrs l)" and dr: "distinct (addrs r)" by auto
  from Node.prems(2) have pl: "parents_ok l (Some a)" and pr: "parents_ok r (Some a)" by auto
  note emb = embed_children [OF Node.prems(1,3)]
  have hdm: "hd (addrs ?m) = (if l = Null then a else hd (addrs l))"
    by (cases "addrs l") auto
  consider (left) "x \<in> set (addrs l)" | (self) "x = a" | (right) "x \<in> set (addrs r)"
    using Node.prems(4) by auto
  then show ?case
  proof cases
    case right
    then have "r \<noteq> Null" by auto
    then obtain ra where ra: "get r = Some ra" by (auto dest: get_Some_ex)
    note IH = Node.IH(2) [OF dr pr emb(3) right ra]
    from right d have "x \<noteq> a" "x \<notin> set (addrs l)" by auto
    moreover have "hd (addrs ?m) = a \<or> hd (addrs ?m) \<in> set (addrs l)"
      by (cases "addrs l") auto
    ultimately have nl: "x \<noteq> hd (addrs ?m)" by auto
    have d': "distinct ((addrs l @ [a]) @ addrs r)" using d by simp
    show ?thesis
    proof (cases "x = hd (addrs r)")
      case True
      from ascend_from_right_child(1) [OF emb(1) Node.prems(1) pr emb(3) ra]
      have "ascend root DIR_LEFT ra = Some (Some a)" .
      moreover from \<open>r \<noteq> Null\<close> have "prev_in (addrs l @ a # addrs r) (hd (addrs r)) = Some a"
        by (intro prev_in_boundary [OF d]) simp
      ultimately show ?thesis using IH True nl by simp
    next
      case False
      from prev_in_right [OF d' right False] IH False nl show ?thesis by simp
    qed
  next
    case self
    show ?thesis
    proof (cases "l = Null")
      case True
      with self emb(1) b show ?thesis by (simp add: prev_node_def)
    next
      case False
      from d have "a \<notin> set (addrs l)" by auto
      from prev_in_split [OF this, of "addrs r"] False
      have "prev_in (addrs ?m) a = Some (last (addrs l))" by simp
      moreover from False d have "a \<noteq> hd (addrs ?m)" by (auto simp: hdm)
      moreover from find_max_last_addr [OF pl False] self emb(1) False
      have "prev_node root (Some x) = Some (Some (last (addrs l)))" by (simp add: prev_node_def)
      ultimately show ?thesis using self by simp
    qed
  next
    case left
    then have ln: "l \<noteq> Null" by auto
    then obtain la where la: "get l = Some la" by (auto dest: get_Some_ex)
    note IH = Node.IH(1) [OF dl pl emb(2) left la]
    from prev_in_left [OF left, of "a # addrs r"]
    have ni: "prev_in (addrs ?m) x = prev_in (addrs l) x" by simp
    from ascend_from_left_child(2) [OF emb(1) Node.prems(1) pl emb(2) la]
    have "ascend root DIR_LEFT la = ascend root DIR_LEFT a" .
    with IH ni ln b show ?thesis by (simp add: hdm)
  qed
qed

lemma next_node_root:
  assumes "distinct (addrs root)" and "parents_ok root None" and "x \<in> set (addrs root)"
  shows "next_node root (Some x) = Some (next_in (addrs root) x)"
proof -
  from assms(3) obtain b k v p l r c where root: "root = Node b k v p l r c"
    by (cases root) auto
  with assms(2) have p: "p = None" by simp
  have at: "node_at root b = Some (Node b k v None l r c)" by (simp add: root p)
  have "next_node root (Some x)
    = (if x = last (addrs root) then ascend root DIR_RIGHT b else Some (next_in (addrs root) x))"
    by (rule next_node_subtree [OF assms(1,2) _ assms(3)]) (simp_all add: root)
  moreover from assms(1,3) have "next_in (addrs root) (last (addrs root)) = None"
    by (intro next_in_last) auto
  ultimately show ?thesis using ascend_top [OF at] by simp
qed

lemma prev_node_root:
  assumes "distinct (addrs root)" and "parents_ok root None" and "x \<in> set (addrs root)"
  shows "prev_node root (Some x) = Some (prev_in (addrs root) x)"
proof -
  from assms(3) obtain b k v p l r c where root: "root = Node b k v p l r c"
    by (cases root) auto
  with assms(2) have p: "p = None" by simp
  have at: "node_at root b = Some (Node b k v None l r c)" by (simp add: root p)
  have "prev_node root (Some x)
    = (if x = hd (addrs root) then ascend root DIR_LEFT b else Some (prev_in (addrs root) x))"
    by (rule prev_node_subtree [OF assms(1,2) _ assms(3)]) (simp_all add: root)
  moreover from assms(3) have "prev_in (addrs root) (hd (addrs root)) = None"
    by (intro prev_in_hd) auto
  ultimately show ?thesis using ascend_top [OF at] by simp
qed

lemma last_inorder_addr: "n \<noteq> Null \<Longrightarrow> fst (last (inorder n)) = last (addrs n)"
  by (simp add: addrs_def last_map)


subsection \<open>Size, root colour and addresses along a sequence of calls\<close>

lemma count_nodes_inorder: "count_nodes n = length (inorder n)"
  by (induction n) auto

lemma try_insert_count:
  "try_insert_key_val fresh par n key val allow sz = Some (n', sz', res) \<Longrightarrow>
     length (inorder n') = length (inorder n) + (if res = Inserted then 1 else 0)"
proof (induction n arbitrary: par n' sz' res)
  case Null
  then show ?case by auto
next
  case (Node a k v p l r c)
  show ?case
  proof (cases "key < k")
    case True
    with Node.prems obtain l' where
      rec: "try_insert_key_val fresh (Some a) l key val allow sz = Some (l', sz', res)"
      and fin: "(if res = Inserted then insert_rebalance (Node a k v p l' r c) DIR_LEFT
                 else Some (Node a k v p l' r c)) = Some n'"
      by (auto split: option.splits if_splits)
    from fin have "inorder n' = inorder (Node a k v p l' r c)"
      by (auto split: if_splits dest: inorder_insert_rebalance)
    with Node.IH(1) [OF rec] show ?thesis by simp
  next
    case False
    show ?thesis
    proof (cases "k < key")
      case True
      with False Node.prems obtain r' where
        rec: "try_insert_key_val fresh (Some a) r key val allow sz = Some (r', sz', res)"
        and fin: "(if res = Inserted then insert_rebalance (Node a k v p l r' c) DIR_RIGHT
                   else Some (Node a k v p l r' c)) = Some n'"
        by (auto split: option.splits if_splits)
      from fin have "inorder n' = inorder (Node a k v p l r' c)"
        by (auto split: if_splits dest: inorder_insert_rebalance)
      with Node.IH(2) [OF rec] show ?thesis by simp
    next
      case kk: False
      with False Node.prems show ?thesis by (auto split: if_splits)
    qed
  qed
qed

lemma try_insert_root_colour:
  "try_insert_key_val fresh par n key val allow sz = Some (n', sz', res) \<Longrightarrow>
     res \<noteq> Inserted \<Longrightarrow> is_red n' = is_red n"
  by (cases n) (auto split: if_splits option.splits)

lemma try_insert_addrs:
  "try_insert_key_val fresh par n key val allow sz = Some (n', sz', res) \<Longrightarrow>
   distinct (addrs n) \<Longrightarrow> fresh \<notin> set (addrs n) \<Longrightarrow>
     distinct (addrs n') \<and> set (addrs n') \<subseteq> insert fresh (set (addrs n))"
proof (induction n arbitrary: par n' sz' res)
  case Null
  then show ?case by auto
next
  case (Node a k v p l r c)
  from Node.prems(2,3) have dl: "distinct (addrs l)" "fresh \<notin> set (addrs l)"
    and dr: "distinct (addrs r)" "fresh \<notin> set (addrs r)" by auto
  show ?case
  proof (cases "key < k")
    case True
    with Node.prems(1) obtain l' where
      rec: "try_insert_key_val fresh (Some a) l key val allow sz = Some (l', sz', res)"
      and fin: "(if res = Inserted then insert_rebalance (Node a k v p l' r c) DIR_LEFT
                 else Some (Node a k v p l' r c)) = Some n'"
      by (auto split: option.splits if_splits)
    from fin have "inorder n' = inorder (Node a k v p l' r c)"
      by (auto split: if_splits dest: inorder_insert_rebalance)
    then have "addrs n' = addrs l' @ a # addrs r" by (simp add: addrs_def)
    with Node.IH(1) [OF rec dl] Node.prems(2,3) show ?thesis by auto
  next
    case False
    show ?thesis
    proof (cases "k < key")
      case True
      with False Node.prems(1) obtain r' where
        rec: "try_insert_key_val fresh (Some a) r key val allow sz = Some (r', sz', res)"
        and fin: "(if res = Inserted then insert_rebalance (Node a k v p l r' c) DIR_RIGHT
                   else Some (Node a k v p l r' c)) = Some n'"
        by (auto split: option.splits if_splits)
      from fin have "inorder n' = inorder (Node a k v p l r' c)"
        by (auto split: if_splits dest: inorder_insert_rebalance)
      then have "addrs n' = addrs l @ a # addrs r'" by (simp add: addrs_def)
      with Node.IH(2) [OF rec dr] Node.prems(2,3) show ?thesis by auto
    next
      case kk: False
      with False Node.prems show ?thesis by (auto split: if_splits)
    qed
  qed
qed

lemma try_remove_addrs:
  "try_remove_key n d key sz = Some (n', d', sz', res) \<Longrightarrow> distinct (addrs n) \<Longrightarrow>
     distinct (addrs n') \<and> set (addrs n') \<subseteq> set (addrs n)"
proof (induction n arbitrary: d key sz n' d' sz' res)
  case Null
  then show ?case by auto
next
  case (Node a k v p l r c)
  from Node.prems(2) have dl: "distinct (addrs l)" and dr: "distinct (addrs r)" by auto
  from Node.prems(1) show ?case
  proof (cases rule: try_remove_key_elim)
    case unlink
    from inorder_unlink [OF unlink(3)] have "addrs n' = addrs (if l = Null then r else l)"
      by (simp add: addrs_def)
    with dl dr show ?thesis by auto
  next
    case (two_children sa sk sv sp sl sr sc l' d1 res1)
    from two_children(6) have "inorder n' = inorder (Node a sk sv p l' r c)"
      by (auto split: if_splits dest: inorder_remove_rebalance)
    then have "addrs n' = addrs l' @ a # addrs r" by (simp add: addrs_def)
    with Node.IH(1) [OF two_children(5) dl] Node.prems(2) show ?thesis by auto
  next
    case (right r' d1)
    from right(4) have "inorder n' = inorder (Node a k v p l r' c)"
      by (auto split: if_splits dest: inorder_remove_rebalance)
    then have "addrs n' = addrs l @ a # addrs r'" by (simp add: addrs_def)
    with Node.IH(2) [OF right(3) dr] Node.prems(2) show ?thesis by auto
  next
    case (left l' d1)
    from left(4) have "inorder n' = inorder (Node a k v p l' r c)"
      by (auto split: if_splits dest: inorder_remove_rebalance)
    then have "addrs n' = addrs l' @ a # addrs r" by (simp add: addrs_def)
    with Node.IH(1) [OF left(3) dl] Node.prems(2) show ?thesis by auto
  qed
qed

lemma try_remove_count:
  "try_remove_key n d key sz = Some (n', d', sz', res) \<Longrightarrow> bst_order n \<Longrightarrow>
     length (inorder n') + (if res = None then 0 else 1) = length (inorder n)"
proof (induction n arbitrary: d key sz n' d' sz' res)
  case Null
  then show ?case by auto
next
  case (Node a k v p l r c)
  from Node.prems(2) have bl: "bst_order l" and br: "bst_order r" by auto
  from Node.prems(1) show ?case
  proof (cases rule: try_remove_key_elim)
    case unlink
    from inorder_unlink [OF unlink(3)] unlink(2,5) show ?thesis by auto
  next
    case (two_children sa sk sv sp sl sr sc l' d1 res1)
    from find_max_last [OF two_children(4)] obtain xs where
      last: "inorder l = xs @ [(sa, sk, sv)]" by blast
    from try_remove_max [OF bl last two_children(5)] last
    have "length (inorder l') + 1 = length (inorder l)" by simp
    moreover from two_children(6) have "inorder n' = inorder (Node a sk sv p l' r c)"
      by (auto split: if_splits dest: inorder_remove_rebalance)
    ultimately show ?thesis using two_children(7) by simp
  next
    case (right r' d1)
    from right(4) have "inorder n' = inorder (Node a k v p l r' c)"
      by (auto split: if_splits dest: inorder_remove_rebalance)
    with Node.IH(2) [OF right(3) br] show ?thesis by simp
  next
    case (left l' d1)
    from left(4) have "inorder n' = inorder (Node a k v p l' r c)"
      by (auto split: if_splits dest: inorder_remove_rebalance)
    with Node.IH(1) [OF left(3) bl] show ?thesis by simp
  qed
qed

lemma is_red_set_color_Black [simp]: "\<not> is_red (set_color n Black)"
  by (cases n) auto

lemma apply_op_reachable:
  assumes "bst_order (m_root t)" and "parents_ok (m_root t) None"
    and "root_black (m_root t)" and "m_size t = word_of_nat (count_nodes (m_root t))"
  shows "\<exists>t'. apply_op t x = Some t' \<and> bst_order (m_root t') \<and> parents_ok (m_root t') None
           \<and> root_black (m_root t') \<and> m_size t' = word_of_nat (count_nodes (m_root t'))"
proof -
  have ins: "\<exists>t'. map_option fst (Option.bind
        (try_insert_key_val fresh None (m_root t) key val allow (m_size t)) finish_insert)
          = Some t' \<and> bst_order (m_root t') \<and> parents_ok (m_root t') None
           \<and> root_black (m_root t') \<and> m_size t' = word_of_nat (count_nodes (m_root t'))"
    for fresh key val allow
  proof -
    from insert_call [OF assms(1,2), of fresh key val allow] obtain n sz res where
      1: "try_insert_key_val fresh None (m_root t) key val allow (m_size t) = Some (n, sz, res)"
      and 2: "Option.bind (try_insert_key_val fresh None (m_root t) key val allow (m_size t))
                finish_insert
              = Some (\<lparr>m_root = (if res = Inserted then set_color n Black else n),
                       m_size = sz\<rparr>, res)"
      and 3: "bst_order n" "parents_ok n None" by blast
    from try_insert_result [OF 1] have sz: "sz = (if res = Inserted then m_size t + 1 else m_size t)"
      by simp
    from try_insert_count [OF 1]
    have cnt: "count_nodes n = count_nodes (m_root t) + (if res = Inserted then 1 else 0)"
      by (simp add: count_nodes_inorder)
    from try_insert_root_colour [OF 1] assms(3)
    have col: "res \<noteq> Inserted \<Longrightarrow> root_black n" by (simp add: root_black_def)
    from sz cnt assms(4) have "sz = word_of_nat (count_nodes n)" by simp
    with 2 3 col show ?thesis by (simp add: root_black_def count_nodes_inorder)
  qed
  show ?thesis
  proof (cases x)
    case (Insert fresh key val)
    from ins [of fresh key val False] show ?thesis
      unfolding Insert by (simp add: insert_rb_def)
  next
    case (Insert_or_update fresh key val)
    from ins [of fresh key val True] show ?thesis
      unfolding Insert_or_update by (simp add: insert_or_update_def)
  next
    case (Remove key)
    from remove_call [OF assms(1,2), of key] obtain n d sz res where
      1: "try_remove_key (m_root t) False key (m_size t) = Some (n, d, sz, res)"
      and 2: "remove_rb t key
        = Some (\<lparr>m_root = (if res \<noteq> None \<and> n \<noteq> Null then set_color n Black else n),
                 m_size = sz\<rparr>, res)"
      and 3: "bst_order n" "parents_ok n None"
      and 4: "res = try_find_key (m_root t) key"
      and sz: "sz = (if res = None then m_size t else m_size t - 1)" by blast
    from try_remove_count [OF 1 assms(1)]
    have cnt: "count_nodes n + (if res = None then 0 else 1) = count_nodes (m_root t)"
      by (simp add: count_nodes_inorder)
    have size: "sz = word_of_nat (count_nodes n)"
    proof (cases "res = None")
      case True
      with sz cnt assms(4) show ?thesis by simp
    next
      case False
      with cnt have "count_nodes (m_root t) = Suc (count_nodes n)" by simp
      with sz False assms(4) show ?thesis by simp
    qed
    have col: "root_black (if res \<noteq> None \<and> n \<noteq> Null then set_color n Black else n)"
    proof (cases "res = None")
      case True
      with 4 have "try_find_key (m_root t) key = None" by simp
      from try_remove_key_absent [OF this] 1 have "n = m_root t" by simp
      with True assms(3) show ?thesis by simp
    next
      case False
      then show ?thesis by (cases n) (auto simp: root_black_def)
    qed
    from 2 3 size col show ?thesis
      unfolding Remove by (simp add: count_nodes_inorder)
  qed
qed

lemma apply_ops_reachable:
  "bst_order (m_root t) \<Longrightarrow> parents_ok (m_root t) None \<Longrightarrow> root_black (m_root t) \<Longrightarrow>
   m_size t = word_of_nat (count_nodes (m_root t)) \<Longrightarrow>
     \<exists>t'. apply_ops t ops = Some t' \<and> bst_order (m_root t') \<and> parents_ok (m_root t') None
           \<and> root_black (m_root t') \<and> m_size t' = word_of_nat (count_nodes (m_root t'))"
proof (induction ops arbitrary: t)
  case Nil
  then show ?case by simp
next
  case (Cons x ops)
  from apply_op_reachable [OF Cons.prems, of x] obtain t1 where
    1: "apply_op t x = Some t1" "bst_order (m_root t1)" "parents_ok (m_root t1) None"
      "root_black (m_root t1)" "m_size t1 = word_of_nat (count_nodes (m_root t1))" by blast
  from Cons.IH [OF 1(2-5)] 1(1) show ?case by simp
qed

lemma apply_op_addrs:
  assumes "apply_op t x = Some t'" and "distinct (addrs (m_root t))"
    and "fresh_addresses t [x]"
  shows "distinct (addrs (m_root t'))"
proof -
  have ins: "distinct (addrs (m_root t'))"
    if "map_option fst (Option.bind
        (try_insert_key_val fresh None (m_root t) key val allow (m_size t)) finish_insert)
          = Some t'" and "fresh \<notin> set (addrs (m_root t))"
    for fresh key val allow
  proof -
    from that(1) obtain n sz res where
      1: "try_insert_key_val fresh None (m_root t) key val allow (m_size t) = Some (n, sz, res)"
      and 2: "map_option fst (finish_insert (n, sz, res)) = Some t'"
      by (cases "try_insert_key_val fresh None (m_root t) key val allow (m_size t)") auto
    from try_insert_Node [OF 1] have "n \<noteq> Null" .
    from 2 have "m_root t' = (if res = Inserted then set_color n Black else n)"
      unfolding finish_insert_eq [OF \<open>n \<noteq> Null\<close>] by auto
    then have "addrs (m_root t') = addrs n" by (simp add: addrs_def)
    with try_insert_addrs [OF 1 assms(2) that(2)] show ?thesis by simp
  qed
  show ?thesis
  proof (cases x)
    case (Insert fresh key val)
    with assms(1,3) ins [of fresh key val False] show ?thesis
      by (simp add: insert_rb_def)
  next
    case (Insert_or_update fresh key val)
    with assms(1,3) ins [of fresh key val True] show ?thesis
      by (simp add: insert_or_update_def)
  next
    case (Remove key)
    with assms(1) obtain n d sz res where
      1: "try_remove_key (m_root t) False key (m_size t) = Some (n, d, sz, res)"
      and 2: "m_root t' = (if res \<noteq> None \<and> n \<noteq> Null then set_color n Black else n)"
      by (auto simp: remove_rb_def Let_def split: option.splits prod.splits if_splits)
    from 2 have "addrs (m_root t') = addrs n" by (simp add: addrs_def)
    with try_remove_addrs [OF 1 assms(2)] show ?thesis by simp
  qed
qed

lemma apply_ops_addrs:
  "apply_ops t ops = Some t' \<Longrightarrow> distinct (addrs (m_root t)) \<Longrightarrow> fresh_addresses t ops \<Longrightarrow>
     distinct (addrs (m_root t'))"
proof (induction ops arbitrary: t)
  case Nil
  then show ?case by simp
next
  case (Cons x ops)
  from Cons.prems(1) obtain t1 where
    1: "apply_op t x = Some t1" and 2: "apply_ops t1 ops = Some t'"
    by (auto split: option.splits)
  from Cons.prems(3) 1 have f: "fresh_addresses t [x]" "fresh_addresses t1 ops" by auto
  from apply_op_addrs [OF 1 Cons.prems(2) f(1)] have "distinct (addrs (m_root t1))" .
  from Cons.IH [OF 2 this f(2)] show ?case .
qed


subsection \<open>Insertion keeps the colour invariants\<close>

lemma no_red_red_top: "no_red_red n \<Longrightarrow> red_red_at_top_only n"
  by (cases n) auto

lemma top_only_black: "red_red_at_top_only n \<Longrightarrow> \<not> is_red n \<Longrightarrow> no_red_red n"
  by (cases n) auto

lemma black_counts_set_color_Black:
  "is_red n \<Longrightarrow> black_counts (set_color n Black) = Suc ` black_counts n"
  by (cases n) auto

lemma no_red_red_set_color_Black:
  "red_red_at_top_only n \<Longrightarrow> no_red_red (set_color n Black)"
  by (cases n) auto

lemma insert_rebalance_colours_left:
  assumes "insert_rebalance (Node a k v p l r c) DIR_LEFT = Some n'"
    and "red_red_at_top_only l" and "no_red_red r"
    and "c = Red \<longrightarrow> no_red_red l \<and> \<not> is_red r"
  shows "black_counts n' = black_counts (Node a k v p l r c)
    \<and> (c = Black \<longrightarrow> no_red_red n')
    \<and> (c = Red \<longrightarrow> is_red n' \<and> red_red_at_top_only n')"
proof (cases "is_red l")
  case False
  with assms top_only_black [of l] show ?thesis
    by (cases c) (auto simp: insert_rebalance.simps)
next
  case True
  then obtain la lk lv lp ll lr where l: "l = Node la lk lv lp ll lr Red"
    by (cases l) auto
  show ?thesis
  proof (cases "is_red r")
    case rr: True
    then obtain ra rk rv rp rl rr' where r: "r = Node ra rk rv rp rl rr' Red"
      by (cases r) auto
    from assms l r show ?thesis
      by (cases c) (auto simp: insert_rebalance.simps image_Un image_image)
  next
    case rb: False
    show ?thesis
    proof (cases "is_red ll")
      case True
      then obtain a1 k1 v1 p1 l1 r1 where ll: "ll = Node a1 k1 v1 p1 l1 r1 Red"
        by (cases ll) auto
      from assms l ll rb show ?thesis
        by (cases c; cases lr) (auto simp: insert_rebalance.simps image_Un image_image)
    next
      case llb: False
      show ?thesis
      proof (cases "is_red lr")
        case True
        then obtain a1 k1 v1 p1 l1 r1 where lr: "lr = Node a1 k1 v1 p1 l1 r1 Red"
          by (cases lr) auto
        from assms l lr rb llb show ?thesis
          by (cases c; cases l1; cases r1)
            (auto simp: insert_rebalance.simps double_rotation.simps image_Un image_image)
      next
        case False
        with assms l rb llb show ?thesis
          by (cases c) (auto simp: insert_rebalance.simps)
      qed
    qed
  qed
qed

lemma insert_rebalance_colours_right:
  assumes "insert_rebalance (Node a k v p l r c) DIR_RIGHT = Some n'"
    and "red_red_at_top_only r" and "no_red_red l"
    and "c = Red \<longrightarrow> no_red_red r \<and> \<not> is_red l"
  shows "black_counts n' = black_counts (Node a k v p l r c)
    \<and> (c = Black \<longrightarrow> no_red_red n')
    \<and> (c = Red \<longrightarrow> is_red n' \<and> red_red_at_top_only n')"
proof (cases "is_red r")
  case False
  with assms top_only_black [of r] show ?thesis
    by (cases c) (auto simp: insert_rebalance.simps)
next
  case True
  then obtain ra rk rv rp rl rr where r: "r = Node ra rk rv rp rl rr Red"
    by (cases r) auto
  show ?thesis
  proof (cases "is_red l")
    case lred: True
    then obtain la lk lv lp ll lr where l: "l = Node la lk lv lp ll lr Red"
      by (cases l) auto
    from assms l r show ?thesis
      by (cases c) (auto simp: insert_rebalance.simps image_Un image_image)
  next
    case lb: False
    show ?thesis
    proof (cases "is_red rr")
      case True
      then obtain a1 k1 v1 p1 l1 r1 where rr: "rr = Node a1 k1 v1 p1 l1 r1 Red"
        by (cases rr) auto
      from assms r rr lb show ?thesis
        by (cases c; cases rl) (auto simp: insert_rebalance.simps image_Un image_image)
    next
      case rrb: False
      show ?thesis
      proof (cases "is_red rl")
        case True
        then obtain a1 k1 v1 p1 l1 r1 where rl: "rl = Node a1 k1 v1 p1 l1 r1 Red"
          by (cases rl) auto
        from assms r rl lb rrb show ?thesis
          by (cases c; cases l1; cases r1)
            (auto simp: insert_rebalance.simps double_rotation.simps image_Un image_image)
      next
        case False
        with assms r lb rrb show ?thesis
          by (cases c) (auto simp: insert_rebalance.simps)
      qed
    qed
  qed
qed

lemma try_insert_colours:
  "try_insert_key_val fresh par n key val allow sz = Some (n', sz', res) \<Longrightarrow> no_red_red n \<Longrightarrow>
     black_counts n' = black_counts n
     \<and> (\<not> is_red n \<longrightarrow> no_red_red n')
     \<and> (is_red n \<longrightarrow> is_red n' \<and> red_red_at_top_only n')
     \<and> (res \<noteq> Inserted \<longrightarrow> no_red_red n' \<and> is_red n' = is_red n)"
proof (induction n arbitrary: par n' sz' res)
  case Null
  then show ?case by auto
next
  case (Node a k v p l r c)
  from Node.prems(2) have nl: "no_red_red l" and nr: "no_red_red r"
    and red: "c = Red \<Longrightarrow> \<not> is_red l \<and> \<not> is_red r" by auto
  show ?case
  proof (cases "key < k")
    case True
    with Node.prems(1) obtain l' where
      rec: "try_insert_key_val fresh (Some a) l key val allow sz = Some (l', sz', res)"
      and fin: "(if res = Inserted then insert_rebalance (Node a k v p l' r c) DIR_LEFT
                 else Some (Node a k v p l' r c)) = Some n'"
      by (auto split: option.splits if_splits)
    note ih = Node.IH(1) [OF rec nl]
    show ?thesis
    proof (cases "res = Inserted")
      case ins: True
      with fin have rb: "insert_rebalance (Node a k v p l' r c) DIR_LEFT = Some n'" by simp
      from ih have top: "red_red_at_top_only l'" by (cases "is_red l") (auto intro: no_red_red_top)
      from ih red nr have "c = Red \<longrightarrow> no_red_red l' \<and> \<not> is_red r" by auto
      from insert_rebalance_colours_left [OF rb top nr this] ih ins show ?thesis
        by (cases c) auto
    next
      case False
      with fin have "n' = Node a k v p l' r c" by simp
      with ih False nr red show ?thesis by (cases c) (auto intro: no_red_red_top)
    qed
  next
    case nlt: False
    show ?thesis
    proof (cases "k < key")
      case True
      with nlt Node.prems(1) obtain r' where
        rec: "try_insert_key_val fresh (Some a) r key val allow sz = Some (r', sz', res)"
        and fin: "(if res = Inserted then insert_rebalance (Node a k v p l r' c) DIR_RIGHT
                   else Some (Node a k v p l r' c)) = Some n'"
        by (auto split: option.splits if_splits)
      note ih = Node.IH(2) [OF rec nr]
      show ?thesis
      proof (cases "res = Inserted")
        case ins: True
        with fin have rb: "insert_rebalance (Node a k v p l r' c) DIR_RIGHT = Some n'" by simp
        from ih have top: "red_red_at_top_only r'"
          by (cases "is_red r") (auto intro: no_red_red_top)
        from ih red nl have "c = Red \<longrightarrow> no_red_red r' \<and> \<not> is_red l" by auto
        from insert_rebalance_colours_right [OF rb top nl this] ih ins show ?thesis
          by (cases c) auto
      next
        case False
        with fin have "n' = Node a k v p l r' c" by simp
        with ih False nl red show ?thesis by (cases c) (auto intro: no_red_red_top)
      qed
    next
      case False
      with nlt Node.prems show ?thesis by (cases c) (auto split: if_splits)
    qed
  qed
qed

lemma black_balanced_image_Suc: "black_balanced n \<Longrightarrow> card (Suc ` black_counts n) = 1"
  by (simp add: black_balanced_def card_image)

lemma set_color_same:
  assumes "\<not> is_red n"
  shows "set_color n Black = n"
proof (cases n)
  case Null
  then show ?thesis by simp
next
  case (Node a k v p l r c)
  with assms show ?thesis by (cases c) auto
qed

lemma apply_op_insertion_colours:
  assumes "apply_op t x = Some t'" and "is_insertion x"
    and "no_red_red (m_root t)" and "black_balanced (m_root t)" and "root_black (m_root t)"
  shows "no_red_red (m_root t') \<and> black_balanced (m_root t')"
proof -
  have ins: "no_red_red (m_root t') \<and> black_balanced (m_root t')"
    if "map_option fst (Option.bind
        (try_insert_key_val fresh None (m_root t) key val allow (m_size t)) finish_insert)
          = Some t'"
    for fresh key val allow
  proof -
    from that obtain n sz res where
      1: "try_insert_key_val fresh None (m_root t) key val allow (m_size t) = Some (n, sz, res)"
      and 2: "map_option fst (finish_insert (n, sz, res)) = Some t'"
      by (cases "try_insert_key_val fresh None (m_root t) key val allow (m_size t)") auto
    from try_insert_Node [OF 1] have "n \<noteq> Null" .
    from 2 have root: "m_root t' = (if res = Inserted then set_color n Black else n)"
      unfolding finish_insert_eq [OF \<open>n \<noteq> Null\<close>] by auto
    from try_insert_colours [OF 1 assms(3)] assms(5)
    have bc: "black_counts n = black_counts (m_root t)" and nrr: "no_red_red n"
      by (simp_all add: root_black_def)
    from nrr have "no_red_red (set_color n Black)"
      by (intro no_red_red_set_color_Black no_red_red_top)
    moreover have "black_balanced (set_color n Black)"
    proof (cases "is_red n")
      case True
      from assms(4) bc have "black_balanced n" by (simp add: black_balanced_def)
      from black_balanced_image_Suc [OF this] True show ?thesis
        by (simp add: black_balanced_def black_counts_set_color_Black)
    next
      case False
      with assms(4) bc show ?thesis by (simp add: set_color_same black_balanced_def)
    qed
    moreover from assms(4) bc have "black_balanced n" by (simp add: black_balanced_def)
    ultimately show ?thesis using root nrr by simp
  qed
  show ?thesis
  proof (cases x)
    case (Insert fresh key val)
    with assms(1) ins [of fresh key val False] show ?thesis by (simp add: insert_rb_def)
  next
    case (Insert_or_update fresh key val)
    with assms(1) ins [of fresh key val True] show ?thesis by (simp add: insert_or_update_def)
  next
    case (Remove key)
    with assms(2) show ?thesis by simp
  qed
qed

lemma apply_ops_insertions:
  "list_all is_insertion ops \<Longrightarrow>
   bst_order (m_root t) \<Longrightarrow> parents_ok (m_root t) None \<Longrightarrow> root_black (m_root t) \<Longrightarrow>
   m_size t = word_of_nat (count_nodes (m_root t)) \<Longrightarrow>
   no_red_red (m_root t) \<Longrightarrow> black_balanced (m_root t) \<Longrightarrow>
     \<exists>t'. apply_ops t ops = Some t' \<and> bst_order (m_root t') \<and> parents_ok (m_root t') None
           \<and> root_black (m_root t') \<and> m_size t' = word_of_nat (count_nodes (m_root t'))
           \<and> no_red_red (m_root t') \<and> black_balanced (m_root t')"
proof (induction ops arbitrary: t)
  case Nil
  then show ?case by simp
next
  case (Cons x ops)
  from Cons.prems(1) have x: "is_insertion x" and ops: "list_all is_insertion ops" by auto
  from apply_op_reachable [OF Cons.prems(2-5), of x] obtain t1 where
    1: "apply_op t x = Some t1" "bst_order (m_root t1)" "parents_ok (m_root t1) None"
      "root_black (m_root t1)" "m_size t1 = word_of_nat (count_nodes (m_root t1))" by blast
  from apply_op_insertion_colours [OF 1(1) x Cons.prems(6,7,4)]
  have 2: "no_red_red (m_root t1)" "black_balanced (m_root t1)" by auto
  from Cons.IH [OF ops 1(2-5) 2] 1(1) show ?case by simp
qed

lemma validate_passes:
  assumes "count_nodes (m_root t) + 1 < 2 ^ 64"
    and "bst_order (m_root t)" and "no_red_red (m_root t)" and "black_balanced (m_root t)"
    and "parents_ok (m_root t) None" and "(m_root t = Null) = (m_size t = 0)"
  shows "validate t = Some ()"
proof -
  from assms(1) bheight_le_count [of "m_root t"] have "bheight (m_root t) + 1 < 2 ^ 64" by simp
  note nz = height_word_neq_0 [OF this]
  from bst_order_local [OF assms(2)] assms(3-6) nz show ?thesis
    by (auto simp: validate_def validate_parents_iff validate_red_black_tree_iff [OF assms(1)]
        is_empty_rb_def size_rb_def)
qed

lemma size_word_0:
  assumes "count_nodes n < 2 ^ 64"
  shows "(n = Null) = ((word_of_nat (count_nodes n) :: 64 word) = 0)"
proof -
  from assms have "unat (word_of_nat (count_nodes n) :: 64 word) = count_nodes n"
    by (simp add: unsigned_of_nat take_bit_nat_eq_self)
  then have "((word_of_nat (count_nodes n) :: 64 word) = 0) = (count_nodes n = 0)"
    by (metis unat_eq_0)
  then show ?thesis by (cases n) auto
qed

section \<open>Invariant preservation (claim C1)\<close>

text \<open>
  Claim C1: after every operation of every sequence of insert, insert_or_update and
  remove calls on an initially empty tree, the six invariants hold. The code does not
  do this. Inserting the keys 1 to 6 in ascending order gives a tree that satisfies all
  six invariants: the black root 2 with the black leaf 1 on the left and the red node 4
  on the right, whose children 3 and 5 are black, 5 with the red right child 6. Then
  \<^verbatim>\<open>remove(1)\<close> unlinks the black leaf 1 and calls \<^verbatim>\<open>remove_rebalance\<close> at the root with
  the red sibling 4. After the rotation of case 1 the function goes on with the promoted
  node 4 and its child 5 in place of the demoted node 2 and its new sibling 3, rotates
  again and reports the deficit as resolved. In the resulting tree the paths from the
  root to the empty positions cross 2 or 3 black nodes, so the black heights differ, and
  \<^verbatim>\<open>validate()\<close> fails its assertion on that tree. The other five invariants still hold.
\<close>

theorem remove_breaks_black_height:
  "apply_ops empty_rb
     [Insert 1 1 10, Insert 2 2 20, Insert 3 3 30, Insert 4 4 40, Insert 5 5 50,
      Insert 6 6 (60::nat)]
   = Some \<lparr>m_root =
        Node 2 (2::nat) 20 None
          (Node 1 1 10 (Some 2) Null Null Black)
          (Node 4 4 40 (Some 2)
            (Node 3 3 30 (Some 4) Null Null Black)
            (Node 5 5 50 (Some 4) Null (Node 6 6 60 (Some 5) Null Null Red) Black)
            Red)
          Black,
       m_size = 6\<rparr>
   \<and> invariants \<lparr>m_root =
        Node 2 (2::nat) (20::nat) None
          (Node 1 1 10 (Some 2) Null Null Black)
          (Node 4 4 40 (Some 2)
            (Node 3 3 30 (Some 4) Null Null Black)
            (Node 5 5 50 (Some 4) Null (Node 6 6 60 (Some 5) Null Null Red) Black)
            Red)
          Black,
       m_size = 6\<rparr>
   \<and> apply_ops empty_rb
     [Insert 1 1 10, Insert 2 2 20, Insert 3 3 30, Insert 4 4 40, Insert 5 5 50,
      Insert 6 6 (60::nat), Remove 1]
   = Some \<lparr>m_root =
        Node 5 (5::nat) 50 None
          (Node 4 4 40 (Some 5)
            (Node 2 2 20 (Some 4) Null (Node 3 3 30 (Some 2) Null Null Black) Red)
            Null Black)
          (Node 6 6 60 (Some 5) Null Null Black)
          Black,
       m_size = 5\<rparr>
   \<and> black_counts
        (Node 5 (5::nat) (50::nat) None
          (Node 4 4 40 (Some 5)
            (Node 2 2 20 (Some 4) Null (Node 3 3 30 (Some 2) Null Null Black) Red)
            Null Black)
          (Node 6 6 60 (Some 5) Null Null Black)
          Black) = {Suc (Suc 0), Suc (Suc (Suc 0))}
   \<and> \<not> black_balanced
        (Node 5 (5::nat) (50::nat) None
          (Node 4 4 40 (Some 5)
            (Node 2 2 20 (Some 4) Null (Node 3 3 30 (Some 2) Null Null Black) Red)
            Null Black)
          (Node 6 6 60 (Some 5) Null Null Black)
          Black)
   \<and> bst_order
        (Node 5 (5::nat) (50::nat) None
          (Node 4 4 40 (Some 5)
            (Node 2 2 20 (Some 4) Null (Node 3 3 30 (Some 2) Null Null Black) Red)
            Null Black)
          (Node 6 6 60 (Some 5) Null Null Black)
          Black)
   \<and> no_red_red
        (Node 5 (5::nat) (50::nat) None
          (Node 4 4 40 (Some 5)
            (Node 2 2 20 (Some 4) Null (Node 3 3 30 (Some 2) Null Null Black) Red)
            Null Black)
          (Node 6 6 60 (Some 5) Null Null Black)
          Black)
   \<and> parents_ok
        (Node 5 (5::nat) (50::nat) None
          (Node 4 4 40 (Some 5)
            (Node 2 2 20 (Some 4) Null (Node 3 3 30 (Some 2) Null Null Black) Red)
            Null Black)
          (Node 6 6 60 (Some 5) Null Null Black)
          Black) None
   \<and> root_black
        (Node 5 (5::nat) (50::nat) None
          (Node 4 4 40 (Some 5)
            (Node 2 2 20 (Some 4) Null (Node 3 3 30 (Some 2) Null Null Black) Red)
            Null Black)
          (Node 6 6 60 (Some 5) Null Null Black)
          Black)
   \<and> size_ok \<lparr>m_root =
        Node 5 (5::nat) (50::nat) None
          (Node 4 4 40 (Some 5)
            (Node 2 2 20 (Some 4) Null (Node 3 3 30 (Some 2) Null Null Black) Red)
            Null Black)
          (Node 6 6 60 (Some 5) Null Null Black)
          Black,
       m_size = 5\<rparr>
   \<and> validate \<lparr>m_root =
        Node 5 (5::nat) (50::nat) None
          (Node 4 4 40 (Some 5)
            (Node 2 2 20 (Some 4) Null (Node 3 3 30 (Some 2) Null Null Black) Red)
            Null Black)
          (Node 6 6 60 (Some 5) Null Null Black)
          Black,
       m_size = 5\<rparr> = None"
  by (simp add: empty_rb_def insert_rb_def remove_rb_def invariants_def black_balanced_def
      root_black_def size_ok_def validate_def is_empty_rb_def size_rb_def insert_commute
      insert_rebalance.simps remove_rebalance.simps double_rotation.simps)

theorem remove_breaks_black_height_witness:
  "map_option (\<lambda>t. (m_size t, inorder_keys (m_root t), black_balanced (m_root t), validate t))
     (apply_ops empty_rb
       [Insert 1 1 10, Insert 2 2 20, Insert 3 3 30, Insert 4 4 40, Insert 5 5 50,
        Insert 6 6 (60::nat), Remove (1::nat)])
   = Some (5, [2, 3, 4, 5, 6], False, None)"
proof -
  have "black_balanced n = (card (black_counts n) = 1)" for n :: "(nat, nat) node"
    by (simp add: black_balanced_def)
  with remove_breaks_black_height show ?thesis
    by (simp add: inorder_keys_def)
qed

section \<open>What validate checks (claim C2)\<close>

text \<open>
  Claim C2 says that \<^verbatim>\<open>validate()\<close> checks all of the invariants 1 to 5: it reports a
  failure for every tree that violates one of them and none for a tree that satisfies
  all five. The code checks less. \<^verbatim>\<open>validate_red_black_tree\<close> never looks at the colour of
  the root, and it compares the key of a node with the keys of its two children only.
  So a tree that is a single red node passes although its root is red, and the tree
  with root 5, left child 3 and the key 7 as the right child of 3 passes although 7
  stands in the left subtree of 5. In the other direction \<^verbatim>\<open>validate()\<close> also asserts that
  the size is 0 exactly when the tree is empty, which is none of the five invariants:
  a single black node with the size 0 satisfies all five and fails.
\<close>

theorem validate_misses_root_colour_and_deep_order:
  "validate \<lparr>m_root = Node 1 (5::nat) (50::nat) None Null Null Red, m_size = 1\<rparr> = Some ()
   \<and> \<not> root_black (Node 1 (5::nat) (50::nat) None Null Null Red)
   \<and> validate \<lparr>m_root = Node 1 (5::nat) (50::nat) None
                       (Node 2 3 30 (Some 1) Null (Node 3 7 70 (Some 2) Null Null Red) Black)
                       (Node 4 8 80 (Some 1) Null Null Black) Black,
                 m_size = 4\<rparr> = Some ()
   \<and> \<not> bst_order (Node 1 (5::nat) (50::nat) None
                       (Node 2 3 30 (Some 1) Null (Node 3 7 70 (Some 2) Null Null Red) Black)
                       (Node 4 8 80 (Some 1) Null Null Black) Black)
   \<and> validate \<lparr>m_root = Node 1 (5::nat) (50::nat) None Null Null Black, m_size = 0\<rparr> = None
   \<and> bst_order (Node 1 (5::nat) (50::nat) None Null Null Black)
   \<and> no_red_red (Node 1 (5::nat) (50::nat) None Null Null Black)
   \<and> black_balanced (Node 1 (5::nat) (50::nat) None Null Null Black)
   \<and> root_black (Node 1 (5::nat) (50::nat) None Null Null Black)
   \<and> parents_ok (Node 1 (5::nat) (50::nat) None Null Null Black) None"
  by (simp add: validate_def is_empty_rb_def size_rb_def root_black_def black_balanced_def)

text \<open>
  Claim C2 as amended: \<^verbatim>\<open>validate()\<close> checks invariant 2 (no red node has a red child),
  invariant 3 (equal black heights) and invariant 5 (parent links) in full, invariant 1
  only between each node and its own two children, and that the size is 0 exactly when
  the tree is empty; it does not check invariant 4. For every tree of fewer than
  \<open>2\<^sup>6\<^sup>4 - 1\<close> nodes (so that the black height fits the \<^verbatim>\<open>std::size_t\<close> that carries it)
  it reports no failure exactly when these conditions hold. In particular it reports
  no failure for every such tree that satisfies all five invariants and whose size is 0
  exactly when it is empty, and it reports a failure for every such tree that violates
  invariant 2, 3 or 5.
\<close>

theorem validate_checks:
  assumes "count_nodes (m_root t) + 1 < 2 ^ 64"
  shows "(validate t = Some ())
           = ((is_empty_rb t = (size_rb t = 0)) \<and> parents_ok (m_root t) None
              \<and> no_red_red (m_root t) \<and> black_balanced (m_root t) \<and> local_order (m_root t))
       \<and> (bst_order (m_root t) \<and> no_red_red (m_root t) \<and> black_balanced (m_root t)
            \<and> root_black (m_root t) \<and> parents_ok (m_root t) None
            \<and> (is_empty_rb t = (size_rb t = 0)) \<longrightarrow> validate t = Some ())"
proof -
  from assms bheight_le_count [of "m_root t"] have "bheight (m_root t) + 1 < 2 ^ 64" by simp
  note nz = height_word_neq_0 [OF this]
  have 1: "(validate t = Some ())
           = ((is_empty_rb t = (size_rb t = 0)) \<and> parents_ok (m_root t) None
              \<and> no_red_red (m_root t) \<and> black_balanced (m_root t) \<and> local_order (m_root t))"
    using nz
    by (auto simp: validate_def validate_parents_iff validate_red_black_tree_iff [OF assms]
        is_empty_rb_def)
  with bst_order_local [of "m_root t"] show ?thesis by blast
qed

theorem validate_checks_witness:
  "count_nodes (m_root \<lparr>m_root = Node 1 (8::nat) (80::nat) None
                   (Node 2 3 30 (Some 1) Null Null Red) (Node 3 10 100 (Some 1) Null Null Red)
                   Black, m_size = 3\<rparr>) + 1 < 2 ^ 64
   \<and> validate \<lparr>m_root = Node 1 (8::nat) (80::nat) None
                   (Node 2 3 30 (Some 1) Null Null Red) (Node 3 10 100 (Some 1) Null Null Red)
                   Black, m_size = 3\<rparr> = Some ()
   \<and> black_balanced (Node 1 (8::nat) (80::nat) None
                   (Node 2 3 30 (Some 1) Null Null Red) (Node 3 10 100 (Some 1) Null Null Red)
                   Black)
   \<and> validate \<lparr>m_root = Node 1 (8::nat) (80::nat) None
                   (Node 2 3 30 (Some 1) Null Null Black) (Node 3 10 100 (Some 1) Null Null Red)
                   Black, m_size = 3\<rparr> = None
   \<and> \<not> black_balanced (Node 1 (8::nat) (80::nat) None
                   (Node 2 3 30 (Some 1) Null Null Black) (Node 3 10 100 (Some 1) Null Null Red)
                   Black)"
proof -
  have h1: "count_nodes (m_root \<lparr>m_root = Node 1 (8::nat) (80::nat) None
                   (Node 2 3 30 (Some 1) Null Null Red) (Node 3 10 100 (Some 1) Null Null Red)
                   Black, m_size = 3\<rparr>) + 1 < 2 ^ 64"
    by simp
  have h2: "count_nodes (m_root \<lparr>m_root = Node 1 (8::nat) (80::nat) None
                   (Node 2 3 30 (Some 1) Null Null Black) (Node 3 10 100 (Some 1) Null Null Red)
                   Black, m_size = 3\<rparr>) + 1 < 2 ^ 64"
    by simp
  have u: "(x \<noteq> Some ()) = (x = None)" for x :: "unit option"
    by (cases x) auto
  from validate_checks [OF h1] validate_checks [OF h2] h1 show ?thesis
    by (simp add: black_balanced_def is_empty_rb_def size_rb_def root_black_def u)
qed

section \<open>Removal of a node with two children (claim C3)\<close>

text \<open>
  Claim C3: for every tree and every key present in it whose node has two children,
  \<^verbatim>\<open>remove(key)\<close> finds the maximum node of the left subtree (the predecessor), copies
  that node's key and value into the matched node, deletes the predecessor node from
  the left subtree by a recursive call of the same removal, decrements the size exactly
  once and returns the value that the key was mapped to.

  The tree is a search tree whose parent links are those of the structure (invariants 1
  and 5; \<^verbatim>\<open>find_max\<close> and the unlinking assert the links). \<open>Node a k v p l r c\<close> is the node
  that holds the key. The statement has three parts. The maximum \<open>(sa, sk, sv)\<close> of the
  left subtree is its last node in inorder and has no right child. The call of
  \<^verbatim>\<open>try_remove_key\<close> on the matched node, for every \<^verbatim>\<open>is_done\<close> and size, is the recursive
  call on the left subtree with the key \<open>sk\<close>, which removes exactly that last node and
  decrements the size once, followed by the fixup at the matched node, which by then
  holds \<open>sk\<close> and \<open>sv\<close>, if the recursive call left a deficit. For the whole tree,
  \<^verbatim>\<open>remove(key)\<close> returns the value \<open>v\<close> that \<^verbatim>\<open>find(key)\<close> returned, the size is one less, and
  in the inorder sequence of nodes the predecessor node is gone and the matched node
  carries the predecessor's key and value; every other node keeps its place, key and
  value.
\<close>

theorem remove_node_with_two_children:
  assumes "bst_order (m_root t)" and "parents_ok (m_root t) None"
    and "find_node (m_root t) key = Node a k v p l r c" and "l \<noteq> Null" and "r \<noteq> Null"
  shows "\<exists>sa sk sv sp sl sc xs.
      find_max l = Some (Node sa sk sv sp sl Null sc)
    \<and> inorder l = xs @ [(sa, sk, sv)] \<and> (\<forall>x \<in> keys l. x \<le> sk)
    \<and> (\<forall>is_done sz. \<exists>l' d1 res1.
          try_remove_key l is_done sk sz = Some (l', d1, sz - 1, res1)
        \<and> inorder l' = xs
        \<and> try_remove_key (Node a k v p l r c) is_done key sz
            = (if d1 then Some (Node a sk sv p l' r c, True, sz - 1, Some v)
               else map_option (\<lambda>(n, d). (n, d, sz - 1, Some v))
                      (remove_rebalance (Node a sk sv p l' r c) DIR_LEFT)))
    \<and> (\<exists>pre post t'.
          inorder (m_root t) = pre @ xs @ (sa, sk, sv) # (a, key, v) # inorder r @ post
        \<and> find_rb t key = Some v
        \<and> remove_rb t key = Some (t', Some v)
        \<and> m_size t' = m_size t - 1
        \<and> inorder (m_root t') = pre @ xs @ (a, sk, sv) # inorder r @ post)"
proof -
  let ?n = "Node a k v p l r c"
  from find_node_key [OF assms(3)] have k: "k = key"
    and f: "try_find_key (m_root t) key = Some v" by auto
  from find_node_bst [OF assms(1), of key] assms(3) have bn: "bst_order ?n" by simp
  from find_node_parents [OF assms(2), of key] assms(3) obtain q where
    pn: "parents_ok ?n q" by auto
  from bn have bl: "bst_order l" by simp
  from pn have pl: "parents_ok l (Some a)" by simp
  from max_of_left_subtree [OF bl pl assms(4)] obtain sa sk sv sp sl sc xs where
    fm: "find_max l = Some (Node sa sk sv sp sl Null sc)"
    and last: "inorder l = xs @ [(sa, sk, sv)]" and mx: "\<forall>x \<in> keys l. x \<le> sk" by blast
  have node: "\<exists>l' d1 res1.
          try_remove_key l is_done sk sz = Some (l', d1, sz - 1, res1)
        \<and> inorder l' = xs
        \<and> try_remove_key ?n is_done key sz
            = (if d1 then Some (Node a sk sv p l' r c, True, sz - 1, Some v)
               else map_option (\<lambda>(n, d). (n, d, sz - 1, Some v))
                      (remove_rebalance (Node a sk sv p l' r c) DIR_LEFT))" for is_done sz
    using remove_two_children_node [OF bn pn assms(4,5) fm last, of is_done sz] k by simp
  from remove_call [OF assms(1,2), of key] f obtain n d where
    rm: "try_remove_key (m_root t) False key (m_size t) = Some (n, d, m_size t - 1, Some v)"
    and call: "remove_rb t key
        = Some (\<lparr>m_root = (if n \<noteq> Null then set_color n Black else n),
                 m_size = m_size t - 1\<rparr>, Some v)"
    by auto
  from try_remove_inorder [OF assms(1,3) rm] assms(4,5) last k obtain pre post where
    "inorder (m_root t) = pre @ xs @ (sa, sk, sv) # (a, key, v) # inorder r @ post"
    "inorder n = pre @ xs @ (a, sk, sv) # inorder r @ post"
    by auto
  with call f have top: "\<exists>pre post t'.
          inorder (m_root t) = pre @ xs @ (sa, sk, sv) # (a, key, v) # inorder r @ post
        \<and> find_rb t key = Some v
        \<and> remove_rb t key = Some (t', Some v)
        \<and> m_size t' = m_size t - 1
        \<and> inorder (m_root t') = pre @ xs @ (a, sk, sv) # inorder r @ post"
    by (auto simp: find_rb_def)
  from fm last mx node top show ?thesis by blast
qed

theorem remove_node_with_two_children_witness:
  "bst_order (Node 1 (8::nat) ''a'' None (Node 2 3 ''b'' (Some 1) Null Null Red)
                (Node 3 10 ''c'' (Some 1) Null Null Red) Black)
   \<and> parents_ok (Node 1 (8::nat) ''a'' None (Node 2 3 ''b'' (Some 1) Null Null Red)
                (Node 3 10 ''c'' (Some 1) Null Null Red) Black) None
   \<and> find_node (Node 1 (8::nat) ''a'' None (Node 2 3 ''b'' (Some 1) Null Null Red)
                (Node 3 10 ''c'' (Some 1) Null Null Red) Black) 8
       = Node 1 (8::nat) ''a'' None (Node 2 3 ''b'' (Some 1) Null Null Red)
                (Node 3 10 ''c'' (Some 1) Null Null Red) Black
   \<and> find_max (Node 2 (3::nat) ''b'' (Some 1) Null Null Red)
       = Some (Node 2 (3::nat) ''b'' (Some 1) Null Null Red)
   \<and> remove_rb \<lparr>m_root = Node 1 (8::nat) ''a'' None (Node 2 3 ''b'' (Some 1) Null Null Red)
                (Node 3 10 ''c'' (Some 1) Null Null Red) Black, m_size = 3\<rparr> 8
       = Some (\<lparr>m_root = Node 1 (3::nat) ''b'' None Null
                (Node 3 10 ''c'' (Some 1) Null Null Red) Black, m_size = 2\<rparr>, Some ''a'')"
proof -
  let ?t = "\<lparr>m_root = Node 1 (8::nat) ''a'' None (Node 2 3 ''b'' (Some 1) Null Null Red)
                (Node 3 10 ''c'' (Some 1) Null Null Red) Black, m_size = 3\<rparr>"
  have h1: "bst_order (m_root ?t)" by simp
  have h2: "parents_ok (m_root ?t) None" by simp
  have h3: "find_node (m_root ?t) 8
       = Node 1 (8::nat) ''a'' None (Node 2 3 ''b'' (Some 1) Null Null Red)
                (Node 3 10 ''c'' (Some 1) Null Null Red) Black" by simp
  have h4: "Node 2 (3::nat) ''b'' (Some 1) Null Null Red \<noteq> Null" by simp
  have h5: "Node 3 (10::nat) ''c'' (Some 1) Null Null Red \<noteq> Null" by simp
  from remove_node_with_two_children [OF h1 h2 h3 h4 h5] h1 h2 h3 show ?thesis
    by (simp add: remove_rb_def)
qed

section \<open>Removal of an absent key (claim C4)\<close>

text \<open>
  Claim C4: for every tree and every key that is not present in it (\<^verbatim>\<open>find\<close> returns
  absence), \<^verbatim>\<open>remove(key)\<close> returns absence and leaves the tree as it was: the same
  nodes with the same keys, values, colours, parent links and shape, and the same
  size. The recursion comes back with \<^verbatim>\<open>is_done\<close> set, and \<^verbatim>\<open>remove_rebalance\<close> is called at
  no level of it. The statement needs no assumption on the tree.
\<close>

theorem remove_absent_key:
  "find_rb t key = None \<Longrightarrow>
     remove_rb t key = Some (t, None)
     \<and> try_remove_key (m_root t) False key (m_size t) = Some (m_root t, True, m_size t, None)
     \<and> remove_fixups (m_root t) False key (m_size t) = 0"
  by (simp add: find_rb_def remove_rb_def try_remove_key_absent remove_fixups_absent)

theorem remove_absent_key_witness:
  "find_rb \<lparr>m_root = Node 1 (8::nat) (80::nat) None
               (Node 2 3 30 (Some 1) Null Null Red) (Node 3 10 100 (Some 1) Null Null Red) Black,
             m_size = 3\<rparr> 42 = None
   \<and> remove_rb \<lparr>m_root = Node 1 (8::nat) (80::nat) None
               (Node 2 3 30 (Some 1) Null Null Red) (Node 3 10 100 (Some 1) Null Null Red) Black,
             m_size = 3\<rparr> 42
     = Some (\<lparr>m_root = Node 1 (8::nat) (80::nat) None
               (Node 2 3 30 (Some 1) Null Null Red) (Node 3 10 100 (Some 1) Null Null Red) Black,
             m_size = 3\<rparr>, None)
   \<and> remove_fixups (Node 1 (8::nat) (80::nat) None
               (Node 2 3 30 (Some 1) Null Null Red) (Node 3 10 100 (Some 1) Null Null Red) Black)
        False 42 3 = 0"
proof -
  have h: "find_rb \<lparr>m_root = Node 1 (8::nat) (80::nat) None
               (Node 2 3 30 (Some 1) Null Null Red) (Node 3 10 100 (Some 1) Null Null Red) Black,
             m_size = 3\<rparr> 42 = None"
    by (simp add: find_rb_def)
  from remove_absent_key [OF h] h show ?thesis by simp
qed

section \<open>Insertion of a key that is present (claim C5)\<close>

text \<open>
  Claim C5: for every tree and every key already present in it (\<^verbatim>\<open>find\<close> returns a value
  \<open>old\<close>), strict \<^verbatim>\<open>insert(key, value)\<close> returns \<^verbatim>\<open>Failed\<close> and leaves the tree as it was,
  its size included; \<^verbatim>\<open>insert_or_update(key, value)\<close> returns \<^verbatim>\<open>Updated\<close>, keeps the size
  and the tree apart from its values (addresses, keys, parent links, colours and shape
  are the same), replaces the value of the one node that holds the key and no other
  value, and afterwards \<^verbatim>\<open>find(key)\<close> returns the new value while every other key is
  found as before. The tree is one whose parent links are those of the structure
  (invariant 5): the branch for an existing key asserts \<^verbatim>\<open>parent == node->parent\<close>.
\<close>

theorem insert_existing_key:
  assumes "find_rb t key = Some old" and "parents_ok (m_root t) None"
  shows "insert_rb t fresh key val = Some (t, Failed)
       \<and> (\<exists>t'. insert_or_update t fresh key val = Some (t', Updated)
            \<and> m_size t' = m_size t
            \<and> skeleton (m_root t') = skeleton (m_root t)
            \<and> (\<exists>xs a ys. inorder (m_root t) = xs @ (a, key, old) # ys
                  \<and> inorder (m_root t') = xs @ (a, key, val) # ys)
            \<and> find_rb t' key = Some val
            \<and> (\<forall>k'. k' \<noteq> key \<longrightarrow> find_rb t' k' = find_rb t k'))"
proof -
  from assms have f: "try_find_key (m_root t) key = Some old" by (simp add: find_rb_def)
  from try_insert_present [OF f assms(2), of fresh val "m_size t"] obtain n' where
    a: "try_insert_key_val fresh None (m_root t) key val False (m_size t)
          = Some (m_root t, m_size t, Failed)"
    and b: "try_insert_key_val fresh None (m_root t) key val True (m_size t)
          = Some (n', m_size t, Updated)"
    and c: "skeleton n' = skeleton (m_root t)"
      "\<exists>xs a ys. inorder (m_root t) = xs @ (a, key, old) # ys
         \<and> inorder n' = xs @ (a, key, val) # ys"
      "try_find_key n' key = Some val"
      "\<forall>k'. k' \<noteq> key \<longrightarrow> try_find_key n' k' = try_find_key (m_root t) k'"
    by blast
  have 1: "insert_rb t fresh key val = Some (t, Failed)"
    by (simp add: insert_rb_def a)
  have 2: "insert_or_update t fresh key val = Some (\<lparr>m_root = n', m_size = m_size t\<rparr>, Updated)"
    by (simp add: insert_or_update_def b)
  from 1 2 c show ?thesis by (simp add: find_rb_def)
qed

theorem insert_existing_key_witness:
  "find_rb \<lparr>m_root = Node 1 (8::nat) ''a'' None
               (Node 2 1 ''d'' (Some 1) Null Null Red) Null Black, m_size = 2\<rparr> 1 = Some ''d''
   \<and> parents_ok (Node 1 (8::nat) ''a'' None (Node 2 1 ''d'' (Some 1) Null Null Red) Null Black) None
   \<and> insert_rb \<lparr>m_root = Node 1 (8::nat) ''a'' None
               (Node 2 1 ''d'' (Some 1) Null Null Red) Null Black, m_size = 2\<rparr> 3 1 ''x''
     = Some (\<lparr>m_root = Node 1 (8::nat) ''a'' None
               (Node 2 1 ''d'' (Some 1) Null Null Red) Null Black, m_size = 2\<rparr>, Failed)
   \<and> insert_or_update \<lparr>m_root = Node 1 (8::nat) ''a'' None
               (Node 2 1 ''d'' (Some 1) Null Null Red) Null Black, m_size = 2\<rparr> 3 1 ''x''
     = Some (\<lparr>m_root = Node 1 (8::nat) ''a'' None
               (Node 2 1 ''x'' (Some 1) Null Null Red) Null Black, m_size = 2\<rparr>, Updated)"
proof -
  have h1: "find_rb \<lparr>m_root = Node 1 (8::nat) ''a'' None
               (Node 2 1 ''d'' (Some 1) Null Null Red) Null Black, m_size = 2\<rparr> 1 = Some ''d''"
    by (simp add: find_rb_def)
  have h2: "parents_ok (m_root \<lparr>m_root = Node 1 (8::nat) ''a'' None
               (Node 2 1 ''d'' (Some 1) Null Null Red) Null Black, m_size = 2\<rparr>) None"
    by simp
  from insert_existing_key [OF h1 h2, of 3 "''x''"] h1 h2 show ?thesis
    by (simp add: insert_or_update_def)
qed

section \<open>Round trip of insertion, removal and lookup (claim C6)\<close>

text \<open>
  Claim C6 says that for every tree and every key, \<^verbatim>\<open>find(key)\<close> returns the value after
  \<^verbatim>\<open>insert\<close> or \<^verbatim>\<open>insert_or_update\<close> of (key, value), and absence after \<^verbatim>\<open>remove(key)\<close>.
  For the strict \<^verbatim>\<open>insert\<close> this fails on a key that is present: the call returns
  \<^verbatim>\<open>Failed\<close>, the tree keeps the old value, and \<^verbatim>\<open>find\<close> returns the old value. In the tree
  with the keys 8 and 1, where 1 is mapped to "d", \<^verbatim>\<open>insert(1, "x")\<close> returns \<^verbatim>\<open>Failed\<close> and
  \<^verbatim>\<open>find(1)\<close> still returns "d".
\<close>

theorem strict_insert_keeps_old_value:
  "insert_rb \<lparr>m_root = Node 1 (8::nat) ''a'' None
               (Node 2 1 ''d'' (Some 1) Null Null Red) Null Black, m_size = 2\<rparr> 3 1 ''x''
     = Some (\<lparr>m_root = Node 1 (8::nat) ''a'' None
               (Node 2 1 ''d'' (Some 1) Null Null Red) Null Black, m_size = 2\<rparr>, Failed)
   \<and> find_rb \<lparr>m_root = Node 1 (8::nat) ''a'' None
               (Node 2 1 ''d'' (Some 1) Null Null Red) Null Black, m_size = 2\<rparr> 1 = Some ''d''
   \<and> find_rb \<lparr>m_root = Node 1 (8::nat) ''a'' None
               (Node 2 1 ''d'' (Some 1) Null Null Red) Null Black, m_size = 2\<rparr> 1 \<noteq> Some ''x''"
  by (simp add: insert_rb_def find_rb_def)

text \<open>
  Claim C6 as amended: for every tree that is a search tree and whose parent links are
  those of the structure (invariants 1 and 5) and for every key, \<^verbatim>\<open>find(key)\<close> returns
  the value after \<^verbatim>\<open>insert_or_update(key, value)\<close> and after an \<^verbatim>\<open>insert(key, value)\<close> that
  returns \<^verbatim>\<open>Inserted\<close>, which it does exactly when the key was absent; after an \<^verbatim>\<open>insert\<close>
  that returns \<^verbatim>\<open>Failed\<close>, \<^verbatim>\<open>find(key)\<close> returns what it returned before; and after
  \<^verbatim>\<open>remove(key)\<close>, \<^verbatim>\<open>find(key)\<close> returns absence. Each of the three calls returns.
\<close>

theorem find_after_insert_and_remove:
  assumes "bst_order (m_root t)" and "parents_ok (m_root t) None"
  shows "(\<exists>t' res. insert_or_update t fresh key val = Some (t', res) \<and> find_rb t' key = Some val)
       \<and> (\<exists>t' res. insert_rb t fresh key val = Some (t', res)
             \<and> (res = Inserted) = (find_rb t key = None)
             \<and> find_rb t' key = (if res = Inserted then Some val else find_rb t key))
       \<and> (\<exists>t' res. remove_rb t key = Some (t', res) \<and> find_rb t' key = None)"
proof -
  from insert_call [OF assms, of fresh key val True] obtain n sz res where
    u: "try_insert_key_val fresh None (m_root t) key val True (m_size t) = Some (n, sz, res)"
      "insert_or_update t fresh key val
        = Some (\<lparr>m_root = (if res = Inserted then set_color n Black else n), m_size = sz\<rparr>, res)"
      "\<forall>x. try_find_key n x
            = (if x = key \<and> res \<noteq> Failed then Some val else try_find_key (m_root t) x)"
    unfolding insert_or_update_def by blast
  from try_insert_result [OF u(1)] have "res \<noteq> Failed" by auto
  with u(2,3) have 1: "\<exists>t' res. insert_or_update t fresh key val = Some (t', res)
      \<and> find_rb t' key = Some val"
    by (auto simp: find_rb_def)
  from insert_call [OF assms, of fresh key val False] obtain n sz res where
    s: "try_insert_key_val fresh None (m_root t) key val False (m_size t) = Some (n, sz, res)"
      "insert_rb t fresh key val
        = Some (\<lparr>m_root = (if res = Inserted then set_color n Black else n), m_size = sz\<rparr>, res)"
      "\<forall>x. try_find_key n x
            = (if x = key \<and> res \<noteq> Failed then Some val else try_find_key (m_root t) x)"
    unfolding insert_rb_def by blast
  from try_insert_result [OF s(1)]
  have r: "(res = Inserted) = (try_find_key (m_root t) key = None)" "res \<noteq> Updated" by auto
  then have "res = Inserted \<or> res = Failed" by (cases res) auto
  with s(2,3) r have 2: "\<exists>t' res. insert_rb t fresh key val = Some (t', res)
             \<and> (res = Inserted) = (find_rb t key = None)
             \<and> find_rb t' key = (if res = Inserted then Some val else find_rb t key)"
    by (auto simp: find_rb_def)
  from remove_call [OF assms, of key] have 3:
    "\<exists>t' res. remove_rb t key = Some (t', res) \<and> find_rb t' key = None"
    by (auto simp: find_rb_def)
  from 1 2 3 show ?thesis by blast
qed

theorem find_after_insert_and_remove_witness:
  "bst_order (m_root \<lparr>m_root = Node 1 (8::nat) ''a'' None
               (Node 2 1 ''d'' (Some 1) Null Null Red) Null Black, m_size = 2\<rparr>)
   \<and> parents_ok (m_root \<lparr>m_root = Node 1 (8::nat) ''a'' None
               (Node 2 1 ''d'' (Some 1) Null Null Red) Null Black, m_size = 2\<rparr>) None
   \<and> insert_or_update \<lparr>m_root = Node 1 (8::nat) ''a'' None
               (Node 2 1 ''d'' (Some 1) Null Null Red) Null Black, m_size = 2\<rparr> 3 1 ''x''
       = Some (\<lparr>m_root = Node 1 (8::nat) ''a'' None
               (Node 2 1 ''x'' (Some 1) Null Null Red) Null Black, m_size = 2\<rparr>, Updated)
   \<and> find_rb \<lparr>m_root = Node 1 (8::nat) ''a'' None
               (Node 2 1 ''x'' (Some 1) Null Null Red) Null Black, m_size = 2\<rparr> 1 = Some ''x''
   \<and> remove_rb \<lparr>m_root = Node 1 (8::nat) ''a'' None
               (Node 2 1 ''d'' (Some 1) Null Null Red) Null Black, m_size = 2\<rparr> 1
       = Some (\<lparr>m_root = Node 1 (8::nat) ''a'' None Null Null Black, m_size = 1\<rparr>, Some ''d'')
   \<and> find_rb \<lparr>m_root = Node 1 (8::nat) ''a'' None Null Null Black, m_size = 1\<rparr> 1 = None"
proof -
  have h1: "bst_order (m_root \<lparr>m_root = Node 1 (8::nat) ''a'' None
               (Node 2 1 ''d'' (Some 1) Null Null Red) Null Black, m_size = 2\<rparr>)"
    by simp
  have h2: "parents_ok (m_root \<lparr>m_root = Node 1 (8::nat) ''a'' None
               (Node 2 1 ''d'' (Some 1) Null Null Red) Null Black, m_size = 2\<rparr>) None"
    by simp
  from find_after_insert_and_remove [OF h1 h2, of 3 1 "''x''"] h1 h2 show ?thesis
    by (simp add: insert_or_update_def remove_rb_def find_rb_def)
qed

section \<open>Size and result of an insertion (claim C7)\<close>

text \<open>
  Claim C7: for every tree and every call of \<^verbatim>\<open>insert\<close> or \<^verbatim>\<open>insert_or_update\<close>, the size
  increases by exactly 1 when the result is \<^verbatim>\<open>Inserted\<close> and is unchanged when the result
  is \<^verbatim>\<open>Updated\<close> or \<^verbatim>\<open>Failed\<close>, and the result is \<^verbatim>\<open>Inserted\<close> exactly when the key was
  absent before the call (\<^verbatim>\<open>find\<close> returned absence). The size is the 64-bit \<^verbatim>\<open>m_size\<close>:
  \<^verbatim>\<open>++m_size\<close> adds 1 in the word, which is the successor of the number it stands for
  unless the size is the largest word. The first part holds for every tree on which
  the call returns; the last part says that it does return on every tree whose parent
  links are those of the structure.
\<close>

theorem insert_size_and_result:
  "(\<forall>ins \<in> {insert_rb, insert_or_update}. \<forall>t' res.
      ins t fresh key val = Some (t', res) \<longrightarrow>
        (res = Inserted \<longrightarrow> m_size t' = m_size t + 1
           \<and> (unat (m_size t) + 1 < 2 ^ 64 \<longrightarrow> unat (m_size t') = unat (m_size t) + 1))
        \<and> (res = Updated \<or> res = Failed \<longrightarrow> m_size t' = m_size t)
        \<and> (res = Inserted) = (find_rb t key = None))
   \<and> (parents_ok (m_root t) None \<longrightarrow>
        (\<forall>ins \<in> {insert_rb, insert_or_update}. \<exists>t' res. ins t fresh key val = Some (t', res)))"
proof -
  have post: "(res = Inserted \<longrightarrow> m_size t' = m_size t + 1
           \<and> (unat (m_size t) + 1 < 2 ^ 64 \<longrightarrow> unat (m_size t') = unat (m_size t) + 1))
        \<and> (res = Updated \<or> res = Failed \<longrightarrow> m_size t' = m_size t)
        \<and> (res = Inserted) = (find_rb t key = None)"
    if call: "Option.bind (try_insert_key_val fresh None (m_root t) key val allow (m_size t))
                finish_insert = Some (t', res)"
    for allow t' res
  proof -
    from call obtain n' sz' res' where
      ins: "try_insert_key_val fresh None (m_root t) key val allow (m_size t) = Some (n', sz', res')"
      and fin: "finish_insert (n', sz', res') = Some (t', res)"
      by (auto simp: bind_eq_Some_conv)
    from try_insert_Node [OF ins] have "n' \<noteq> Null" .
    from finish_insert_props [OF this, of sz' res'] fin
    have eq: "res' = res" "m_size t' = sz'" by auto
    have w: "unat (m_size t + 1) = unat (m_size t) + 1" if "unat (m_size t) + 1 < 2 ^ 64"
      using that unat_add_lem [of "m_size t" 1] by simp
    from try_insert_result [OF ins] eq w show ?thesis
      by (cases res) (auto simp: find_rb_def)
  qed
  have total: "\<exists>t' res. Option.bind (try_insert_key_val fresh None (m_root t) key val allow
                 (m_size t)) finish_insert = Some (t', res)"
    if ok: "parents_ok (m_root t) None" for allow
  proof -
    from try_insert_total [OF ok] obtain n' sz' res where
      ins: "try_insert_key_val fresh None (m_root t) key val allow (m_size t) = Some (n', sz', res)"
      by blast
    from try_insert_Node [OF ins] have "n' \<noteq> Null" .
    from finish_insert_props [OF this, of sz' res] ins show ?thesis by auto
  qed
  from post [of False] post [of True] total [of False] total [of True] show ?thesis
    unfolding insert_rb_def insert_or_update_def by blast
qed

theorem insert_size_and_result_witness:
  "parents_ok (m_root \<lparr>m_root = Node 1 (8::nat) ''a'' None Null Null Black, m_size = 1\<rparr>) None
   \<and> insert_rb \<lparr>m_root = Node 1 (8::nat) ''a'' None Null Null Black, m_size = 1\<rparr> 2 3 ''b''
       = Some (\<lparr>m_root = Node 1 (8::nat) ''a'' None (Node 2 3 ''b'' (Some 1) Null Null Red) Null
                 Black, m_size = 2\<rparr>, Inserted)
   \<and> find_rb \<lparr>m_root = Node 1 (8::nat) ''a'' None Null Null Black, m_size = 1\<rparr> 3 = None
   \<and> insert_or_update \<lparr>m_root = Node 1 (8::nat) ''a'' None Null Null Black, m_size = 1\<rparr> 2 8 ''b''
       = Some (\<lparr>m_root = Node 1 (8::nat) ''b'' None Null Null Black, m_size = 1\<rparr>, Updated)
   \<and> find_rb \<lparr>m_root = Node 1 (8::nat) ''a'' None Null Null Black, m_size = 1\<rparr> 8 = Some ''a''"
  using insert_size_and_result
    [of "\<lparr>m_root = Node 1 (8::nat) ''a'' None Null Null Black, m_size = 1\<rparr>" 2 3 "''b''"]
  by (simp add: insert_rb_def insert_or_update_def find_rb_def insert_rebalance.simps double_rotation.simps)

section \<open>Inorder traversal (claim C8)\<close>

text \<open>
  Claim C8: for every tree built from an arbitrary insert sequence, the inorder
  traversal visits the keys in strictly ascending order, and for every visitor: if the
  visitor returns the stop signal on some key, no further key is visited; otherwise all
  keys are visited.

  The statement is proved for the tree built by any sequence of calls of \<^verbatim>\<open>insert\<close>,
  \<^verbatim>\<open>insert_or_update\<close> and \<^verbatim>\<open>remove\<close> on the empty tree, whatever addresses the allocator
  hands out; the insert sequences of the claim are among them. Every call of the
  sequence returns. The keys of the resulting tree in inorder are strictly ascending.
  For every visitor, with whatever state it has captured, the traversal is the run of
  the visitor over the entries in that order which ends at the first stop signal. For
  the visitor that writes down what it is called on and answers by a predicate, the
  entries visited are those before the first entry on which it answers stop, and that
  entry: all of them when it never answers stop.
\<close>

theorem inorder_visits_ascending:
  "\<exists>t. apply_ops empty_rb ops = Some t
     \<and> sorted_wrt (<) (inorder_keys (m_root t))
     \<and> map fst (entries (m_root t)) = inorder_keys (m_root t)
     \<and> (\<forall>visitor s. visit_inorder (m_root t) visitor s
            = visit_list visitor (entries (m_root t)) s)
     \<and> (\<forall>P. visit_inorder_rb t (recording P) []
            = takeWhile (\<lambda>(k, v). P k v) (entries (m_root t))
              @ take 1 (dropWhile (\<lambda>(k, v). P k v) (entries (m_root t))))"
proof -
  have "bst_order (m_root empty_rb)" "parents_ok (m_root empty_rb) None"
    by (simp_all add: empty_rb_def)
  from apply_ops_preserves [OF this, of ops] obtain t where
    t: "apply_ops empty_rb ops = Some t" "bst_order (m_root t)" by blast
  from t(2) have "sorted_wrt (<) (inorder_keys (m_root t))" by (simp add: bst_order_sorted)
  with t(1) show ?thesis
    by (auto simp: visit_inorder_list visit_inorder_rb_def visit_list_recording fst_entries)
qed

theorem inorder_visits_ascending_witness:
  "map_option
     (\<lambda>t. (inorder_keys (m_root t), visit_inorder_rb t (recording (\<lambda>k v. k < 6)) [],
           visit_inorder_rb t (recording (\<lambda>k v. True)) []))
     (apply_ops empty_rb
        [Insert 1 (8::nat) ''a'', Insert 2 3 ''b'', Insert 3 10 ''c'', Insert 4 1 ''d'',
         Insert 5 6 ''e'', Insert 6 14 ''f'', Insert 7 4 ''g'', Insert 8 7 ''h'',
         Insert 9 13 ''i''])
   = Some ([1, 3, 4, 6, 7, 8, 10, 13, 14],
           [(1, ''d''), (3, ''b''), (4, ''g''), (6, ''e'')],
           [(1, ''d''), (3, ''b''), (4, ''g''), (6, ''e''), (7, ''h''), (8, ''a''),
            (10, ''c''), (13, ''i''), (14, ''f'')])"
proof -
  have "apply_ops empty_rb
        [Insert 1 (8::nat) ''a'', Insert 2 3 ''b'', Insert 3 10 ''c'', Insert 4 1 ''d'',
         Insert 5 6 ''e'', Insert 6 14 ''f'', Insert 7 4 ''g'', Insert 8 7 ''h'',
         Insert 9 13 ''i'']
    = Some \<lparr>m_root =
        Node 5 6 ''e'' None
          (Node 2 3 ''b'' (Some 5) (Node 4 1 ''d'' (Some 2) Null Null Black)
            (Node 7 4 ''g'' (Some 2) Null Null Black) Black)
          (Node 1 8 ''a'' (Some 5) (Node 8 7 ''h'' (Some 1) Null Null Black)
            (Node 9 13 ''i'' (Some 1) (Node 3 10 ''c'' (Some 9) Null Null Red)
              (Node 6 14 ''f'' (Some 9) Null Null Red) Black)
            Black)
          Black,
       m_size = 9\<rparr>"
    by (simp add: empty_rb_def insert_rb_def insert_rebalance.simps double_rotation.simps(2))
  with inorder_visits_ascending
    [of "[Insert 1 (8::nat) ''a'', Insert 2 3 ''b'', Insert 3 10 ''c'', Insert 4 1 ''d'',
         Insert 5 6 ''e'', Insert 6 14 ''f'', Insert 7 4 ''g'', Insert 8 7 ''h'',
         Insert 9 13 ''i'']"]
  show ?thesis
    by (simp add: inorder_keys_def visit_inorder_rb_def recording_def)
qed

section \<open>Iterator symmetry (claim C9)\<close>

text \<open>
  Claim C9: for every tree and every iterator positioned at a node, advancing it (to
  the inorder successor) and then retreating it (to the inorder predecessor) returns it
  to the original position; retreating from the end position lands on the maximum-key
  node of a non-empty tree.

  The tree is a search tree whose parent links are those of the structure (invariants 1
  and 5), and its nodes are stored at different addresses, as live objects are. The
  iterator points to a node \<open>x\<close> of the tree. Then \<^verbatim>\<open>++it\<close> returns and moves the iterator to
  the node after \<open>x\<close> in inorder, or to the end position when \<open>x\<close> is the last node, and
  \<^verbatim>\<open>--it\<close> from there returns and gives the original iterator back: also when \<open>x\<close> is
  the last node, since \<^verbatim>\<open>--\<close> from the end position goes to the result of \<^verbatim>\<open>find_max\<close>.
  Retreating the end iterator lands on the last node in inorder, whose key is the
  largest key of the tree.
\<close>

theorem iterator_symmetry:
  assumes "bst_order (m_root t)" and "parents_ok (m_root t) None"
    and "distinct (addrs (m_root t))"
    and "m_node it = Some x" and "x \<in> set (addrs (m_root t))"
  shows "iter_inc t it = Some (it\<lparr>m_node := next_in (addrs (m_root t)) x\<rparr>)
       \<and> iter_dec t (it\<lparr>m_node := next_in (addrs (m_root t)) x\<rparr>) = Some it
       \<and> (\<exists>a k v. iter_dec t (end_rb this t) = Some \<lparr>m_tree = this, m_node = Some a\<rparr>
             \<and> last (inorder (m_root t)) = (a, k, v)
             \<and> (\<forall>k' \<in> keys (m_root t). k' \<le> k))"
proof -
  let ?root = "m_root t"
  let ?as = "addrs ?root"
  from assms(5) have ne: "?root \<noteq> Null" by auto
  from next_node_root [OF assms(3,2,5)] assms(4)
  have inc: "iter_inc t it = Some (it\<lparr>m_node := next_in ?as x\<rparr>)"
    by (simp add: iter_inc_def)
  note fm = find_max_last_addr [OF assms(2) ne]
  note inv = next_prev_inverse [OF assms(3,5)]
  have dec: "iter_dec t (it\<lparr>m_node := next_in ?as x\<rparr>) = Some it"
  proof (cases "next_in ?as x")
    case None
    with inv have "x = last ?as" by simp
    with fm None assms(4) show ?thesis
      by (auto simp: iter_dec_def)
  next
    case (Some y)
    with inv have y: "y \<in> set ?as" "prev_in ?as y = Some x" by auto
    from prev_node_root [OF assms(3,2) y(1)] y(2) Some assms(4) show ?thesis
      by (simp add: iter_dec_def)
  qed
  obtain a k v where l: "last (inorder ?root) = (a, k, v)" by (cases "last (inorder ?root)")
  from ne have "inorder ?root = butlast (inorder ?root) @ [last (inorder ?root)]" by simp
  with l have io: "inorder ?root = butlast (inorder ?root) @ [(a, k, v)]" by simp
  from bst_last(2) [OF assms(1) io] have mx: "\<forall>k' \<in> keys ?root. k' \<le> k" .
  from last_inorder_addr [OF ne] l have "last ?as = a" by simp
  with fm have "iter_dec t (end_rb this t) = Some \<lparr>m_tree = this, m_node = Some a\<rparr>"
    by (auto simp: iter_dec_def end_rb_def)
  with inc dec l mx show ?thesis by blast
qed

theorem iterator_symmetry_witness:
  "bst_order (Node 1 (8::nat) ''a'' None (Node 2 3 ''b'' (Some 1) Null Null Red)
                (Node 3 10 ''c'' (Some 1) Null Null Red) Black)
   \<and> parents_ok (Node 1 (8::nat) ''a'' None (Node 2 3 ''b'' (Some 1) Null Null Red)
                (Node 3 10 ''c'' (Some 1) Null Null Red) Black) None
   \<and> addrs (Node 1 (8::nat) ''a'' None (Node 2 3 ''b'' (Some 1) Null Null Red)
                (Node 3 10 ''c'' (Some 1) Null Null Red) Black) = [2, 1, 3]
   \<and> iter_inc \<lparr>m_root = Node 1 (8::nat) ''a'' None (Node 2 3 ''b'' (Some 1) Null Null Red)
                (Node 3 10 ''c'' (Some 1) Null Null Red) Black, m_size = 3\<rparr>
         \<lparr>m_tree = 7, m_node = Some 2\<rparr> = Some \<lparr>m_tree = 7, m_node = Some 1\<rparr>
   \<and> iter_dec \<lparr>m_root = Node 1 (8::nat) ''a'' None (Node 2 3 ''b'' (Some 1) Null Null Red)
                (Node 3 10 ''c'' (Some 1) Null Null Red) Black, m_size = 3\<rparr>
         \<lparr>m_tree = 7, m_node = Some 1\<rparr> = Some \<lparr>m_tree = 7, m_node = Some 2\<rparr>
   \<and> iter_dec \<lparr>m_root = Node 1 (8::nat) ''a'' None (Node 2 3 ''b'' (Some 1) Null Null Red)
                (Node 3 10 ''c'' (Some 1) Null Null Red) Black, m_size = 3\<rparr>
         \<lparr>m_tree = 7, m_node = None\<rparr> = Some \<lparr>m_tree = 7, m_node = Some 3\<rparr>"
proof -
  let ?t = "\<lparr>m_root = Node 1 (8::nat) ''a'' None (Node 2 3 ''b'' (Some 1) Null Null Red)
                (Node 3 10 ''c'' (Some 1) Null Null Red) Black, m_size = 3\<rparr>"
  let ?it = "\<lparr>m_tree = 7, m_node = Some 2\<rparr>"
  have h1: "bst_order (m_root ?t)" by simp
  have h2: "parents_ok (m_root ?t) None" by simp
  have h3: "distinct (addrs (m_root ?t))" by simp
  have h4: "m_node ?it = Some 2" by simp
  have h5: "2 \<in> set (addrs (m_root ?t))" by simp
  from iterator_symmetry [OF h1 h2 h3 h4 h5, of 7] h1 h2 show ?thesis
    by (auto simp: next_in_def end_rb_def)
qed

section \<open>Iterator motion at the end boundary (claim C10)\<close>

text \<open>
  Claim C10: for every tree, incrementing the end iterator yields the end iterator
  again; for the empty tree, decrementing the end iterator also yields the end
  iterator; and \<^verbatim>\<open>begin()\<close> equals \<^verbatim>\<open>end()\<close> exactly when the tree is empty. \<^verbatim>\<open>begin()\<close>
  walks down the left spine under the assertion of \<^verbatim>\<open>find_min\<close>, so it returns on the
  trees whose parent links are those of the structure; on a tree where it fails the
  assertion it returns no iterator, and that tree is not empty.
\<close>

theorem end_boundary_closed:
  "iter_inc t (end_rb this t) = Some (end_rb this t)
   \<and> (is_empty_rb t \<longrightarrow> iter_dec t (end_rb this t) = Some (end_rb this t))
   \<and> ((begin_rb this t = Some (end_rb this t)) = is_empty_rb t)
   \<and> (parents_ok (m_root t) None \<longrightarrow> (\<exists>it. begin_rb this t = Some it))"
proof -
  have inc: "iter_inc t (end_rb this t) = Some (end_rb this t)"
    by (simp add: iter_inc_def end_rb_def next_node_def)
  have dec: "is_empty_rb t \<longrightarrow> iter_dec t (end_rb this t) = Some (end_rb this t)"
    by (simp add: iter_dec_def end_rb_def is_empty_rb_def)
  have beg: "(begin_rb this t = Some (end_rb this t)) = is_empty_rb t"
  proof (cases "find_min (m_root t)")
    case None
    then have "m_root t \<noteq> Null" by (cases "m_root t") auto
    with None show ?thesis by (simp add: begin_rb_def is_empty_rb_def)
  next
    case (Some m)
    from find_min_Node [OF Some] show ?thesis
      by (simp add: begin_rb_def end_rb_def is_empty_rb_def Some get_Null)
  qed
  have tot: "parents_ok (m_root t) None \<longrightarrow> (\<exists>it. begin_rb this t = Some it)"
    using find_min_total [of "m_root t" None] by (auto simp: begin_rb_def)
  from inc dec beg tot show ?thesis by blast
qed

theorem end_boundary_closed_witness:
  "is_empty_rb (\<lparr>m_root = Null, m_size = 0\<rparr> :: (nat, nat) rbtree)
   \<and> iter_inc (\<lparr>m_root = Null, m_size = 0\<rparr> :: (nat, nat) rbtree) \<lparr>m_tree = 7, m_node = None\<rparr>
       = Some \<lparr>m_tree = 7, m_node = None\<rparr>
   \<and> iter_dec (\<lparr>m_root = Null, m_size = 0\<rparr> :: (nat, nat) rbtree) \<lparr>m_tree = 7, m_node = None\<rparr>
       = Some \<lparr>m_tree = 7, m_node = None\<rparr>
   \<and> begin_rb 7 (\<lparr>m_root = Null, m_size = 0\<rparr> :: (nat, nat) rbtree)
       = Some \<lparr>m_tree = 7, m_node = None\<rparr>
   \<and> parents_ok (Node 1 (8::nat) (80::nat) None (Node 2 3 30 (Some 1) Null Null Red) Null Black)
       None
   \<and> \<not> is_empty_rb \<lparr>m_root = Node 1 (8::nat) (80::nat) None
                        (Node 2 3 30 (Some 1) Null Null Red) Null Black, m_size = 2\<rparr>
   \<and> begin_rb 7 \<lparr>m_root = Node 1 (8::nat) (80::nat) None
                        (Node 2 3 30 (Some 1) Null Null Red) Null Black, m_size = 2\<rparr>
       = Some \<lparr>m_tree = 7, m_node = Some 2\<rparr>
   \<and> iter_inc \<lparr>m_root = Node 1 (8::nat) (80::nat) None
                        (Node 2 3 30 (Some 1) Null Null Red) Null Black, m_size = 2\<rparr>
        \<lparr>m_tree = 7, m_node = None\<rparr>
       = Some \<lparr>m_tree = 7, m_node = None\<rparr>"
  using end_boundary_closed [of "\<lparr>m_root = Null, m_size = 0\<rparr> :: (nat, nat) rbtree" 7]
    end_boundary_closed [of "\<lparr>m_root = Node 1 (8::nat) (80::nat) None
                        (Node 2 3 30 (Some 1) Null Null Red) Null Black, m_size = 2\<rparr>" 7]
  by (simp add: is_empty_rb_def end_rb_def begin_rb_def)


section \<open>What every sequence of calls keeps\<close>

text \<open>
  X1. Started on the empty tree, every call of every sequence of \<^verbatim>\<open>insert\<close>,
  \<^verbatim>\<open>insert_or_update\<close> and \<^verbatim>\<open>remove\<close> returns, and the tree it leaves is in search-tree
  order (invariant 1), has a black root (invariant 4), has every parent pointer at the
  structural parent (invariant 5), and has \<^verbatim>\<open>m_size\<close> equal to the number of reachable
  nodes modulo \<open>2 ^ 64\<close>, so equal to it while there are fewer than \<open>2 ^ 64\<close> nodes
  (invariant 6). The two colour invariants are not in the list: a removal can break the
  black heights.
\<close>

theorem calls_keep_order_root_parents_size:
  fixes ops :: "('k::linorder, 'v) operation list"
  shows "\<exists>t. apply_ops empty_rb ops = Some t \<and> bst_order (m_root t) \<and> root_black (m_root t)
           \<and> parents_ok (m_root t) None
           \<and> m_size t = word_of_nat (count_nodes (m_root t))
           \<and> (count_nodes (m_root t) < 2 ^ 64 \<longrightarrow> size_ok t)"
proof -
  have "bst_order (m_root (empty_rb :: ('k, 'v) rbtree))"
    and "parents_ok (m_root (empty_rb :: ('k, 'v) rbtree)) None"
    and "root_black (m_root (empty_rb :: ('k, 'v) rbtree))"
    and "m_size (empty_rb :: ('k, 'v) rbtree)
           = word_of_nat (count_nodes (m_root (empty_rb :: ('k, 'v) rbtree)))"
    by (simp_all add: empty_rb_def root_black_def)
  from apply_ops_reachable [OF this, of ops] obtain t where
    t: "apply_ops empty_rb ops = Some t" "bst_order (m_root t)" "parents_ok (m_root t) None"
      "root_black (m_root t)" "m_size t = word_of_nat (count_nodes (m_root t))" by blast
  have "size_ok t" if "count_nodes (m_root t) < 2 ^ 64"
    using that t(5) by (simp add: size_ok_def unsigned_of_nat take_bit_nat_eq_self)
  with t show ?thesis by blast
qed

theorem calls_keep_order_root_parents_size_witness:
  "apply_ops empty_rb
      [Insert 1 (1::nat) (10::nat), Insert 2 2 20, Insert 3 3 30, Insert 4 4 40,
       Insert 5 5 50, Insert 6 6 60, Remove 1]
     = Some \<lparr>m_root =
          Node 5 5 50 None
            (Node 4 4 40 (Some 5)
               (Node 2 2 20 (Some 4) Null (Node 3 3 30 (Some 2) Null Null Black) Red)
               Null Black)
            (Node 6 6 60 (Some 5) Null Null Black) Black, m_size = 5\<rparr>
   \<and> size_ok \<lparr>m_root =
          Node 5 (5::nat) (50::nat) None
            (Node 4 4 40 (Some 5)
               (Node 2 2 20 (Some 4) Null (Node 3 3 30 (Some 2) Null Null Black) Red)
               Null Black)
            (Node 6 6 60 (Some 5) Null Null Black) Black, m_size = 5\<rparr>"
  using calls_keep_order_root_parents_size
    [of "[Insert 1 (1::nat) (10::nat), Insert 2 2 20, Insert 3 3 30, Insert 4 4 40,
          Insert 5 5 50, Insert 6 6 60, Remove 1]"]
  by (simp add: empty_rb_def insert_rb_def remove_rb_def size_ok_def
      insert_rebalance.simps remove_rebalance.simps double_rotation.simps)

text \<open>
  X2. When every insertion is given an address at which no node of the tree is stored,
  the nodes of the tree that a sequence of calls leaves have pairwise distinct addresses:
  the assumption under which the iterator's steps are stated.
\<close>

theorem calls_keep_addresses_distinct:
  fixes ops :: "('k::linorder, 'v) operation list"
  assumes "fresh_addresses empty_rb ops" and "apply_ops empty_rb ops = Some t"
  shows "distinct (addrs (m_root t))"
  using apply_ops_addrs [OF assms(2) _ assms(1)] by (simp add: empty_rb_def addrs_def)

theorem calls_keep_addresses_distinct_witness:
  "fresh_addresses empty_rb [Insert 1 (8::nat) (80::nat), Insert 2 3 30, Remove 8, Insert 1 10 100]
   \<and> apply_ops empty_rb [Insert 1 (8::nat) (80::nat), Insert 2 3 30, Remove 8, Insert 1 10 100]
       = Some \<lparr>m_root = Node 2 3 30 None Null (Node 1 10 100 (Some 2) Null Null Red) Black,
               m_size = 2\<rparr>
   \<and> distinct (addrs (Node 2 (3::nat) (30::nat) None Null
                        (Node 1 10 100 (Some 2) Null Null Red) Black))"
  using calls_keep_addresses_distinct
    [of "[Insert 1 (8::nat) (80::nat), Insert 2 3 30, Remove 8, Insert 1 10 100]"
        "\<lparr>m_root = Node 2 3 30 None Null (Node 1 10 100 (Some 2) Null Null Red) Black,
          m_size = 2\<rparr>"]
  by (simp add: empty_rb_def insert_rb_def remove_rb_def addrs_def
      insert_rebalance.simps remove_rebalance.simps double_rotation.simps)

text \<open>
  X3. Started on the empty tree, every call of every sequence of \<^verbatim>\<open>insert\<close> and
  \<^verbatim>\<open>insert_or_update\<close> calls returns and leaves a tree that satisfies all six
  invariants, and on which \<^verbatim>\<open>validate()\<close> reports no failure (while the tree has fewer
  than \<open>2 ^ 64 - 1\<close> nodes, so that the size and the black height fit their
  \<^verbatim>\<open>std::size_t\<close>): the insertion fixup restores invariant 2 and keeps invariant 3.
\<close>

theorem insertions_keep_all_invariants:
  fixes ops :: "('k::linorder, 'v) operation list"
  assumes "list_all is_insertion ops"
  shows "\<exists>t. apply_ops empty_rb ops = Some t \<and> bst_order (m_root t) \<and> no_red_red (m_root t)
           \<and> black_balanced (m_root t) \<and> root_black (m_root t) \<and> parents_ok (m_root t) None
           \<and> m_size t = word_of_nat (count_nodes (m_root t))
           \<and> (count_nodes (m_root t) + 1 < 2 ^ 64 \<longrightarrow> invariants t \<and> validate t = Some ())"
proof -
  have "bst_order (m_root (empty_rb :: ('k, 'v) rbtree))"
    and "parents_ok (m_root (empty_rb :: ('k, 'v) rbtree)) None"
    and "root_black (m_root (empty_rb :: ('k, 'v) rbtree))"
    and "m_size (empty_rb :: ('k, 'v) rbtree)
           = word_of_nat (count_nodes (m_root (empty_rb :: ('k, 'v) rbtree)))"
    and "no_red_red (m_root (empty_rb :: ('k, 'v) rbtree))"
    and "black_balanced (m_root (empty_rb :: ('k, 'v) rbtree))"
    by (simp_all add: empty_rb_def root_black_def black_balanced_def)
  from apply_ops_insertions [OF assms this] obtain t where
    t: "apply_ops empty_rb ops = Some t" "bst_order (m_root t)" "parents_ok (m_root t) None"
      "root_black (m_root t)" "m_size t = word_of_nat (count_nodes (m_root t))"
      "no_red_red (m_root t)" "black_balanced (m_root t)" by blast
  have "invariants t \<and> validate t = Some ()" if b: "count_nodes (m_root t) + 1 < 2 ^ 64"
  proof -
    from b have c: "count_nodes (m_root t) < 2 ^ 64" by simp
    with t(5) have "size_ok t"
      by (simp add: size_ok_def unsigned_of_nat take_bit_nat_eq_self)
    with t have "invariants t" by (simp add: invariants_def)
    moreover from size_word_0 [OF c] t(5) have "(m_root t = Null) = (m_size t = 0)" by simp
    from validate_passes [OF b t(2,6,7,3) this] have "validate t = Some ()" .
    ultimately show ?thesis by simp
  qed
  with t show ?thesis by blast
qed

theorem insertions_keep_all_invariants_witness:
  "list_all is_insertion
     [Insert 1 (8::nat) ''a'', Insert 2 3 ''b'', Insert 3 10 ''c'', Insert 4 1 ''d'',
      Insert 5 6 ''e'', Insert 6 14 ''f'', Insert 7 4 ''g'', Insert 8 7 ''h'',
      Insert 9 13 ''i'']
   \<and> map_option (\<lambda>t. (size_rb t, invariants t, validate t))
       (apply_ops empty_rb
          [Insert 1 (8::nat) ''a'', Insert 2 3 ''b'', Insert 3 10 ''c'', Insert 4 1 ''d'',
           Insert 5 6 ''e'', Insert 6 14 ''f'', Insert 7 4 ''g'', Insert 8 7 ''h'',
           Insert 9 13 ''i''])
     = Some (9, True, Some ())"
proof -
  have "apply_ops empty_rb
        [Insert 1 (8::nat) ''a'', Insert 2 3 ''b'', Insert 3 10 ''c'', Insert 4 1 ''d'',
         Insert 5 6 ''e'', Insert 6 14 ''f'', Insert 7 4 ''g'', Insert 8 7 ''h'',
         Insert 9 13 ''i'']
    = Some \<lparr>m_root =
        Node 5 6 ''e'' None
          (Node 2 3 ''b'' (Some 5) (Node 4 1 ''d'' (Some 2) Null Null Black)
            (Node 7 4 ''g'' (Some 2) Null Null Black) Black)
          (Node 1 8 ''a'' (Some 5) (Node 8 7 ''h'' (Some 1) Null Null Black)
            (Node 9 13 ''i'' (Some 1) (Node 3 10 ''c'' (Some 9) Null Null Red)
              (Node 6 14 ''f'' (Some 9) Null Null Red) Black)
            Black)
          Black,
       m_size = 9\<rparr>"
    by (simp add: empty_rb_def insert_rb_def insert_rebalance.simps double_rotation.simps(2))
  with insertions_keep_all_invariants
    [of "[Insert 1 (8::nat) ''a'', Insert 2 3 ''b'', Insert 3 10 ''c'', Insert 4 1 ''d'',
         Insert 5 6 ''e'', Insert 6 14 ''f'', Insert 7 4 ''g'', Insert 8 7 ''h'',
         Insert 9 13 ''i'']"]
  show ?thesis
    by (simp add: size_rb_def)
qed

end
